theory Spec2Isabelle
  imports Main "HOL-Library.AList" "HOL-Library.Word"
begin

section \<open>Strings\<close>

text \<open>
  JavaScript strings are modelled as \<open>string\<close> (lists of 8-bit characters); the spec
  restricts subdomains and header names to ASCII. \<open>toLowerCase\<close> maps \<open>A..Z\<close> to
  \<open>a..z\<close> and leaves every other character alone. (JavaScript also lowers accented
  capitals; those are outside \<open>[a-z0-9-]\<close> before and after lowering and outside
  every header name of the drop-list, so no function below can tell the difference.)
\<close>

definition lower_table :: "(char \<times> char) list" where
  "lower_table = zip ''ABCDEFGHIJKLMNOPQRSTUVWXYZ'' ''abcdefghijklmnopqrstuvwxyz''"

definition lower_char :: "char \<Rightarrow> char" where
  "lower_char c = (case map_of lower_table c of Some d \<Rightarrow> d | None \<Rightarrow> c)"

definition toLowerCase :: "string \<Rightarrow> string" where
  "toLowerCase s = map lower_char s"

section \<open>wsHandler.ts: sanitizeSubdomain\<close>

text \<open>The character class \<open>[a-z0-9-]\<close> of the regular expressions.\<close>

definition label_char :: "char \<Rightarrow> bool" where
  "label_char c = (c \<in> set ''abcdefghijklmnopqrstuvwxyz0123456789-'')"

text \<open>\<^verbatim>\<open>.replace(/[^a-z0-9-]/g, '-')\<close>: every character outside the class becomes a dash.\<close>

definition replace_invalid :: "string \<Rightarrow> string" where
  "replace_invalid s = map (\<lambda>c. if label_char c then c else CHR ''-'') s"

text \<open>\<^verbatim>\<open>.replace(/-+/g, '-')\<close>: every maximal run of dashes becomes one dash.\<close>

fun collapse_dashes :: "string \<Rightarrow> string" where
  "collapse_dashes [] = []"
| "collapse_dashes [c] = [c]"
| "collapse_dashes (c # d # cs) =
     (if c = CHR ''-'' \<and> d = CHR ''-'' then collapse_dashes (d # cs)
      else c # collapse_dashes (d # cs))"

text \<open>
  \<^verbatim>\<open>.replace(/^-|-$/g, '')\<close>: one dash at the very start is deleted, then one dash at
  the very end of what follows it.
\<close>

definition trim_dash :: "string \<Rightarrow> string" where
  "trim_dash s =
     (let s1 = (case s of [] \<Rightarrow> [] | c # cs \<Rightarrow> if c = CHR ''-'' then cs else s)
      in if s1 \<noteq> [] \<and> last s1 = CHR ''-'' then butlast s1 else s1)"

text \<open>The whole pipeline, ending with \<^verbatim>\<open>.substring(0, 63)\<close>.\<close>

definition sanitizeSubdomain :: "string \<Rightarrow> string" where
  "sanitizeSubdomain input =
     take 63 (trim_dash (collapse_dashes (replace_invalid (toLowerCase input))))"

text \<open>
  The label grammar of the spec's data model (section 3), transcribed from the spec so that
  results of the code can be compared with it: \<open>[a-z0-9-]{1..63}\<close>, no dash at
  either end, no two dashes in a row (dots are excluded by the character class).
\<close>

fun no_double_dash :: "string \<Rightarrow> bool" where
  "no_double_dash (c # d # cs) = (\<not> (c = CHR ''-'' \<and> d = CHR ''-'') \<and> no_double_dash (d # cs))"
| "no_double_dash cs = True"

definition spec_label :: "string \<Rightarrow> bool" where
  "spec_label s =
     (1 \<le> length s \<and> length s \<le> 63 \<and> list_all label_char s \<and>
      hd s \<noteq> CHR ''-'' \<and> last s \<noteq> CHR ''-'' \<and> no_double_dash s)"

text \<open>The lower-case letters and digits, and the ASCII letters and digits.\<close>

definition lower_alnum :: "char \<Rightarrow> bool" where
  "lower_alnum c = (c \<in> set ''abcdefghijklmnopqrstuvwxyz0123456789'')"

definition alnum :: "char \<Rightarrow> bool" where
  "alnum c = (c \<in> set ''ABCDEFGHIJKLMNOPQRSTUVWXYZabcdefghijklmnopqrstuvwxyz0123456789'')"

section \<open>The registry: data model\<close>

text \<open>
  Object identities (tunnel client objects, WebSocket objects, promises, timer handles) are
  natural numbers. The identities that the runtime creates are drawn from the counter
  \<open>next_handle\<close> of the world.
\<close>

datatype ReadyState = CONNECTING | OPEN | CLOSING | CLOSED

text \<open>
  The errors a forwarded request can fail with: the three \<^verbatim>\<open>new Error(...)\<close> of
  \<^verbatim>\<open>forwardRequest\<close>, the one of \<^verbatim>\<open>remove\<close>, and whatever \<^verbatim>\<open>ws.send\<close> throws.
\<close>

datatype error =
    NoTunnelFound string
  | TunnelNotOpen
  | RequestTimedOut
  | TunnelDisconnected
  | SendThrew string

record TunnelRequest =
  rq_id :: string
  rq_method :: string
  rq_path :: string
  rq_headers :: "(string \<times> string) list"
  rq_body :: "string option"

record TunnelResponse =
  rs_id :: string
  rs_statusCode :: int
  rs_headers :: "(string \<times> string) list"
  rs_body :: "string option"

text \<open>
  An entry of \<^verbatim>\<open>pendingRequests\<close>: \<^verbatim>\<open>resolve\<close> and \<^verbatim>\<open>reject\<close> are the two
  callbacks of one promise, \<^verbatim>\<open>timeout\<close> is the handle \<^verbatim>\<open>setTimeout\<close> returned.
\<close>

record pending =
  p_promise :: nat
  p_timeout :: nat

text \<open>
  \<^verbatim>\<open>Map\<close> objects keep insertion order and \<^verbatim>\<open>set\<close> on a present key replaces the
  value in place: association lists with \<open>AList.update\<close> and \<open>AList.delete\<close>.
\<close>

record TunnelClient =
  c_id :: string
  c_subdomain :: string
  c_localPort :: int
  c_ws :: nat
  c_connectedAt :: nat
  c_requestCount :: nat
  c_pendingRequests :: "(string \<times> pending) list"

datatype frame =
    RequestFrame TunnelRequest
  | TunnelReady string string string

text \<open>
  The trace: every call that the registry makes, in the order of the calls, on the timers
  (\<^verbatim>\<open>setTimeout\<close>, \<^verbatim>\<open>clearTimeout\<close>), on the promise callbacks (\<^verbatim>\<open>resolve\<close>,
  \<^verbatim>\<open>reject\<close>), on the sockets (\<^verbatim>\<open>send\<close>, \<^verbatim>\<open>close\<close>), on the pending table of a
  client object (\<^verbatim>\<open>set\<close>, \<^verbatim>\<open>delete\<close>, \<^verbatim>\<open>clear\<close>) and on the registry's
  \<^verbatim>\<open>tunnels\<close> map (\<^verbatim>\<open>set\<close>, \<^verbatim>\<open>delete\<close>).
\<close>

datatype event =
    SetTimeout nat nat
  | ClearTimeout nat
  | Resolve nat TunnelResponse
  | Reject nat error
  | WsSend nat frame
  | WsSendThrew nat frame string
  | WsClose nat nat string
  | PendingSet nat string pending
  | PendingDelete nat string
  | PendingClear nat
  | TunnelsSet string nat
  | TunnelsDelete string

text \<open>
  The world: the registry's \<^verbatim>\<open>tunnels\<close> map (subdomain to client object), the client
  objects, the \<^verbatim>\<open>readyState\<close> of every socket, the timers that are set and not cleared
  (with what their callback closes over: client object, request id, promise), the
  promises that are settled (a promise keeps its first settlement), the trace of calls,
  and the UUID generator: \<open>uuid_source w n\<close> is the value of the \<open>n\<close>-th call of
  \<^verbatim>\<open>uuidv4()\<close> and \<open>uuid_count\<close> counts the calls made so far.
  Console output is not modelled.
\<close>

record world =
  tunnels :: "(string \<times> nat) list"
  objs :: "nat \<Rightarrow> TunnelClient"
  readyState :: "nat \<Rightarrow> ReadyState"
  timers :: "(nat \<times> (nat \<times> string \<times> nat)) list"
  promises :: "nat \<Rightarrow> (error + TunnelResponse) option"
  trace :: "event list"
  next_handle :: nat
  uuid_source :: "nat \<Rightarrow> string"
  uuid_count :: nat

section \<open>The runtime: timers, promises, sockets, maps, UUIDs\<close>

definition clearTimeout :: "nat \<Rightarrow> world \<Rightarrow> world" where
  "clearTimeout t w =
     w\<lparr>timers := AList.delete t (timers w), trace := trace w @ [ClearTimeout t]\<rparr>"

text \<open>Settling a promise that is already settled does nothing.\<close>

definition settle :: "nat \<Rightarrow> error + TunnelResponse \<Rightarrow> world \<Rightarrow> world" where
  "settle p out w =
     (case promises w p of
        None \<Rightarrow> w\<lparr>promises := (promises w)(p := Some out)\<rparr>
      | Some _ \<Rightarrow> w)"

definition reject :: "nat \<Rightarrow> error \<Rightarrow> world \<Rightarrow> world" where
  "reject p e w = settle p (Inl e) (w\<lparr>trace := trace w @ [Reject p e]\<rparr>)"

definition resolve :: "nat \<Rightarrow> TunnelResponse \<Rightarrow> world \<Rightarrow> world" where
  "resolve p r w = settle p (Inr r) (w\<lparr>trace := trace w @ [Resolve p r]\<rparr>)"

text \<open>
  \<^verbatim>\<open>ws.close(code, reason)\<close> of the \<^verbatim>\<open>ws\<close> package: a socket that is not yet closed
  goes to \<^verbatim>\<open>CLOSING\<close>.
\<close>

definition ws_close :: "nat \<Rightarrow> nat \<Rightarrow> string \<Rightarrow> world \<Rightarrow> world" where
  "ws_close ch code reason w =
     w\<lparr>readyState := (readyState w)(ch := (if readyState w ch = CLOSED then CLOSED else CLOSING)),
       trace := trace w @ [WsClose ch code reason]\<rparr>"

text \<open>
  \<^verbatim>\<open>ws.send(JSON.stringify(frame))\<close>. Whether the call returns or throws is decided by
  the socket library, so the outcome is an input of the model.
\<close>

datatype send_outcome = Sent | Throws string

definition ws_send :: "nat \<Rightarrow> frame \<Rightarrow> send_outcome \<Rightarrow> world \<Rightarrow> world" where
  "ws_send ch f outcome w =
     (case outcome of
        Sent \<Rightarrow> w\<lparr>trace := trace w @ [WsSend ch f]\<rparr>
      | Throws e \<Rightarrow> w\<lparr>trace := trace w @ [WsSendThrew ch f e]\<rparr>)"

text \<open>\<^verbatim>\<open>this.tunnels.set\<close> and \<^verbatim>\<open>this.tunnels.delete\<close>.\<close>

definition tunnels_set :: "string \<Rightarrow> nat \<Rightarrow> world \<Rightarrow> world" where
  "tunnels_set subdomain c w =
     w\<lparr>tunnels := AList.update subdomain c (tunnels w),
       trace := trace w @ [TunnelsSet subdomain c]\<rparr>"

definition tunnels_delete :: "string \<Rightarrow> world \<Rightarrow> world" where
  "tunnels_delete subdomain w =
     w\<lparr>tunnels := AList.delete subdomain (tunnels w),
       trace := trace w @ [TunnelsDelete subdomain]\<rparr>"

text \<open>\<^verbatim>\<open>set\<close>, \<^verbatim>\<open>delete\<close> and \<^verbatim>\<open>clear\<close> on the pending table of client object \<open>c\<close>.\<close>

definition pending_set :: "nat \<Rightarrow> string \<Rightarrow> pending \<Rightarrow> world \<Rightarrow> world" where
  "pending_set c rid e w =
     w\<lparr>objs := (objs w)(c := (objs w c)
          \<lparr>c_pendingRequests := AList.update rid e (c_pendingRequests (objs w c))\<rparr>),
       trace := trace w @ [PendingSet c rid e]\<rparr>"

definition pending_delete :: "nat \<Rightarrow> string \<Rightarrow> world \<Rightarrow> world" where
  "pending_delete c rid w =
     w\<lparr>objs := (objs w)(c := (objs w c)
          \<lparr>c_pendingRequests := AList.delete rid (c_pendingRequests (objs w c))\<rparr>),
       trace := trace w @ [PendingDelete c rid]\<rparr>"

definition pending_clear :: "nat \<Rightarrow> world \<Rightarrow> world" where
  "pending_clear c w =
     w\<lparr>objs := (objs w)(c := (objs w c)\<lparr>c_pendingRequests := []\<rparr>),
       trace := trace w @ [PendingClear c]\<rparr>"

text \<open>One call of \<^verbatim>\<open>uuidv4()\<close>: the next value of the generator.\<close>

definition uuidv4 :: "world \<Rightarrow> string \<times> world" where
  "uuidv4 w = (uuid_source w (uuid_count w), w\<lparr>uuid_count := Suc (uuid_count w)\<rparr>)"

section \<open>TunnelRegistry\<close>

definition get :: "string \<Rightarrow> world \<Rightarrow> nat option" where
  "get subdomain w = map_of (tunnels w) subdomain"

text \<open>The body of the loop of \<^verbatim>\<open>remove\<close>, for one entry of \<^verbatim>\<open>pendingRequests\<close>.\<close>

definition reject_pending :: "string \<times> pending \<Rightarrow> world \<Rightarrow> world" where
  "reject_pending e w =
     reject (p_promise (snd e)) TunnelDisconnected (clearTimeout (p_timeout (snd e)) w)"

definition remove_tunnel :: "string \<Rightarrow> world \<Rightarrow> world" where
  "remove_tunnel subdomain w =
     (case map_of (tunnels w) subdomain of
        None \<Rightarrow> w
      | Some c \<Rightarrow>
          let w1 = fold reject_pending (c_pendingRequests (objs w c)) w;
              w2 = pending_clear c w1;
              w3 = (if readyState w2 (c_ws (objs w2 c)) = OPEN
                    then ws_close (c_ws (objs w2 c)) 1000 ''Tunnel removed'' w2
                    else w2)
          in tunnels_delete subdomain w3)"

text \<open>
  \<^verbatim>\<open>register\<close>: \<open>now\<close> is \<^verbatim>\<open>new Date()\<close>. The object literal calls \<^verbatim>\<open>uuidv4()\<close>
  and makes a new client object, which \<^verbatim>\<open>this.tunnels.set\<close> then installs. The result
  is the new client object and the new world.
\<close>

definition register :: "string \<Rightarrow> int \<Rightarrow> nat \<Rightarrow> nat \<Rightarrow> world \<Rightarrow> nat \<times> world" where
  "register subdomain localPort ch now w =
     (let w1 = (case map_of (tunnels w) subdomain of
                  Some existing \<Rightarrow> remove_tunnel subdomain w
                | None \<Rightarrow> w);
          (uid, w2) = uuidv4 w1;
          c = next_handle w2;
          client = \<lparr>c_id = uid, c_subdomain = subdomain, c_localPort = localPort, c_ws = ch,
                    c_connectedAt = now, c_requestCount = 0, c_pendingRequests = []\<rparr>;
          w3 = w2\<lparr>objs := (objs w2)(c := client), next_handle := Suc c\<rparr>
      in (c, tunnels_set subdomain c w3))"

text \<open>The first entry of \<^verbatim>\<open>tunnels\<close> whose client holds the socket \<open>ch\<close>.\<close>

definition owner :: "nat \<Rightarrow> world \<Rightarrow> (string \<times> nat) option" where
  "owner ch w = find (\<lambda>e. c_ws (objs w (snd e)) = ch) (tunnels w)"

definition removeByWs :: "nat \<Rightarrow> world \<Rightarrow> world" where
  "removeByWs ch w =
     (case owner ch w of None \<Rightarrow> w | Some e \<Rightarrow> remove_tunnel (fst e) w)"

text \<open>The statements of the promise executor of \<^verbatim>\<open>forwardRequest\<close>, one by one.\<close>

definition setTimeout :: "nat \<Rightarrow> string \<Rightarrow> nat \<Rightarrow> nat \<Rightarrow> world \<Rightarrow> nat \<times> world" where
  "setTimeout c rid p ms w =
     (let t = next_handle w
      in (t, w\<lparr>timers := AList.update t (c, rid, p) (timers w),
                trace := trace w @ [SetTimeout t ms],
                next_handle := Suc t\<rparr>))"

definition count_request :: "nat \<Rightarrow> world \<Rightarrow> world" where
  "count_request c w =
     w\<lparr>objs := (objs w)(c := (objs w c)\<lparr>c_requestCount := Suc (c_requestCount (objs w c))\<rparr>)\<rparr>"

text \<open>
  The world in which \<^verbatim>\<open>ws.send\<close> is called: the timer is set and the entry is stored.
  The result is the timer handle and that world.
\<close>

definition before_send :: "nat \<Rightarrow> TunnelRequest \<Rightarrow> nat \<Rightarrow> nat \<Rightarrow> world \<Rightarrow> nat \<times> world" where
  "before_send c request p timeoutMs w =
     (let (t, w1) = setTimeout c (rq_id request) p timeoutMs w
      in (t, pending_set c (rq_id request) \<lparr>p_promise = p, p_timeout = t\<rparr> w1))"

text \<open>
  The executor. An exception thrown inside it rejects the promise and skips the rest of
  the body.
\<close>

definition executor :: "nat \<Rightarrow> TunnelRequest \<Rightarrow> nat \<Rightarrow> nat \<Rightarrow> send_outcome \<Rightarrow> world \<Rightarrow> world" where
  "executor c request p timeoutMs outcome w =
     (let w2 = snd (before_send c request p timeoutMs w);
          w3 = ws_send (c_ws (objs w2 c)) (RequestFrame request) outcome w2
      in case outcome of
           Sent \<Rightarrow> count_request c w3
         | Throws e \<Rightarrow> settle p (Inl (SendThrew e)) w3)"

text \<open>
  \<^verbatim>\<open>forwardRequest\<close> up to the point where the caller awaits: the result is the promise
  it returns (a new promise, born unsettled) and the new world. A promise that is not
  settled in the new world is parked. The two \<^verbatim>\<open>throw\<close> before the executor reject
  the promise of the \<^verbatim>\<open>async\<close> function.
\<close>

definition forwardRequest ::
  "string \<Rightarrow> TunnelRequest \<Rightarrow> nat \<Rightarrow> send_outcome \<Rightarrow> world \<Rightarrow> nat \<times> world" where
  "forwardRequest subdomain request timeoutMs outcome w =
     (let p = next_handle w;
          w0 = w\<lparr>promises := (promises w)(p := None), next_handle := Suc p\<rparr>
      in case map_of (tunnels w0) subdomain of
           None \<Rightarrow> (p, settle p (Inl (NoTunnelFound subdomain)) w0)
         | Some c \<Rightarrow>
             if readyState w0 (c_ws (objs w0 c)) \<noteq> OPEN
             then (p, settle p (Inl TunnelNotOpen) (remove_tunnel subdomain w0))
             else (p, executor c request p timeoutMs outcome w0))"

text \<open>The callback given to \<^verbatim>\<open>setTimeout\<close>, run when timer \<open>t\<close> fires.\<close>

definition timer_fires :: "nat \<Rightarrow> world \<Rightarrow> world" where
  "timer_fires t w =
     (case map_of (timers w) t of
        None \<Rightarrow> w
      | Some (c, rid, p) \<Rightarrow>
          reject p RequestTimedOut
            (pending_delete c rid (w\<lparr>timers := AList.delete t (timers w)\<rparr>)))"

definition handleResponse :: "nat \<Rightarrow> TunnelResponse \<Rightarrow> world \<Rightarrow> world" where
  "handleResponse ch response w =
     (case owner ch w of
        None \<Rightarrow> w
      | Some e \<Rightarrow>
          (case map_of (c_pendingRequests (objs w (snd e))) (rs_id response) of
             None \<Rightarrow> w
           | Some pe \<Rightarrow>
               resolve (p_promise pe) response
                 (pending_delete (snd e) (rs_id response) (clearTimeout (p_timeout pe) w))))"

section \<open>wsHandler.ts: generateSubdomain and handleMessage\<close>

definition adjectives :: "string list" where
  "adjectives = [''swift'', ''bold'', ''calm'', ''dark'', ''epic'', ''fair'', ''glad'', ''keen'',
                 ''live'', ''neat'', ''pure'', ''warm'']"

definition nouns :: "string list" where
  "nouns = [''app'', ''code'', ''dev'', ''hub'', ''lab'', ''net'', ''pro'', ''run'', ''web'',
            ''api'', ''bit'', ''box'']"

text \<open>
  \<open>i\<close> and \<open>j\<close> are the two values of \<^verbatim>\<open>Math.floor(Math.random() * 12)\<close>, both below 12.
  The suffix is the first four characters of a new UUID.
\<close>

definition generateSubdomain :: "nat \<Rightarrow> nat \<Rightarrow> world \<Rightarrow> string \<times> world" where
  "generateSubdomain i j w =
     (let (u, w1) = uuidv4 w
      in (adjectives ! i @ ''-'' @ nouns ! j @ ''-'' @ take 4 u, w1))"

text \<open>
  A parsed message: its \<^verbatim>\<open>type\<close> and the field that the handler reads for that type
  (absent fields are \<open>None\<close>).
\<close>

datatype WSMessage =
    Register "string option"
  | Response "TunnelResponse option"
  | Pong
  | Other string

text \<open>\<^verbatim>\<open>a || b\<close> on strings that may be undefined: the empty string is falsy.\<close>

definition or_else :: "string option \<Rightarrow> string option \<Rightarrow> string option" where
  "or_else a b = (case a of Some s \<Rightarrow> if s \<noteq> [] then Some s else b | None \<Rightarrow> b)"

text \<open>
  \<^verbatim>\<open>generateSubdomain()\<close> is called only when the message's subdomain and the header hint
  are both falsy. \<open>now\<close> is as in \<open>register\<close>, \<open>outcome\<close> is the outcome of sending the
  \<^verbatim>\<open>tunnel-ready\<close> frame.
\<close>

definition handleMessage ::
  "string \<Rightarrow> nat \<Rightarrow> WSMessage \<Rightarrow> string option \<Rightarrow> int \<Rightarrow> nat \<Rightarrow> nat \<Rightarrow> nat \<Rightarrow>
   send_outcome \<Rightarrow> world \<Rightarrow> world" where
  "handleMessage domain ch message requestedSubdomain localPort i j now outcome w =
     (case message of
        Register msub \<Rightarrow>
          let (raw, w0) = (case or_else (or_else msub requestedSubdomain) None of
                             Some s \<Rightarrow> (s, w)
                           | None \<Rightarrow> generateSubdomain i j w);
              subdomain = sanitizeSubdomain raw;
              (c, w1) = register subdomain localPort ch now w0;
              tunnelUrl = ''https://'' @ subdomain @ ''.'' @ domain
          in ws_send ch (TunnelReady tunnelUrl subdomain (c_id (objs w1 c))) outcome w1
      | Response data \<Rightarrow>
          (case data of
             None \<Rightarrow> w
           | Some responseData \<Rightarrow>
               if rs_id responseData \<noteq> [] then handleResponse ch responseData w else w)
      | Pong \<Rightarrow> w
      | Other t \<Rightarrow> w)"

section \<open>proxy.ts: writing the tunnel's response\<close>

definition HOP_BY_HOP_HEADERS :: "string list" where
  "HOP_BY_HOP_HEADERS =
     [''connection'', ''keep-alive'', ''proxy-authenticate'', ''proxy-authorization'',
      ''te'', ''trailer'', ''transfer-encoding'', ''upgrade'']"

text \<open>
  The HTTP response object of Node and Express, as far as the proxy uses it. Node keeps the
  headers under their lower-cased names, each with the name as it was last written and its
  value. \<open>res_ended\<close> is how the response was ended: not yet, by \<^verbatim>\<open>res.end\<close> with the
  bytes it was given (none for \<^verbatim>\<open>res.end()\<close>), or by \<^verbatim>\<open>res.json\<close> with the three
  fields of the proxy's error objects (\<open>error\<close>, \<open>message\<close>, \<open>subdomain\<close>). The bytes are
  what the proxy hands over; Node transmits no body for a \<^verbatim>\<open>HEAD\<close> request nor with a
  status 1xx, 204 or 304.
\<close>

datatype ending = NotEnded | Ended "8 word list" | EndedJson string string string

record Res =
  res_headers :: "(string \<times> string \<times> string) list"
  res_statusCode :: int
  res_ended :: ending

text \<open>
  What Node and Express throw at the proxy: \<^verbatim>\<open>setHeader\<close> after the response was sent,
  a header name that is not an HTTP token, a header value with a forbidden character, a
  status code outside 100..999.
\<close>

datatype http_error = HeadersSent | InvalidToken string | InvalidChar string | InvalidStatus int

text \<open>
  The characters of an HTTP token (letters, digits and \<^verbatim>\<open>^_`-!#$%&'*+.|~\<close>) and the
  characters allowed in a header value (tab, the printable ASCII characters, and every
  character from 128 on).
\<close>

definition token_char :: "char \<Rightarrow> bool" where
  "token_char c =
     (c \<in> set ''abcdefghijklmnopqrstuvwxyzABCDEFGHIJKLMNOPQRSTUVWXYZ0123456789^_-!#$%&*+.|~''
      \<or> c = CHR 0x60 \<or> c = CHR 0x27)"

definition valid_header_name :: "string \<Rightarrow> bool" where
  "valid_header_name name = (name \<noteq> [] \<and> list_all token_char name)"

definition value_char :: "char \<Rightarrow> bool" where
  "value_char c =
     (of_char c = (9::nat) \<or> (32 \<le> (of_char c :: nat) \<and> (of_char c :: nat) \<le> 126)
      \<or> 128 \<le> (of_char c :: nat))"

definition valid_header_value :: "string \<Rightarrow> bool" where
  "valid_header_value v = list_all value_char v"

text \<open>\<^verbatim>\<open>res.setHeader(name, value)\<close>: the three checks of Node, then the write.\<close>

definition put_header :: "string \<Rightarrow> string \<Rightarrow> Res \<Rightarrow> Res" where
  "put_header name v res =
     res\<lparr>res_headers := AList.update (toLowerCase name) (name, v) (res_headers res)\<rparr>"

definition setHeader :: "string \<Rightarrow> string \<Rightarrow> Res \<Rightarrow> http_error + Res" where
  "setHeader name v res =
     (if res_ended res \<noteq> NotEnded then Inl HeadersSent
      else if \<not> valid_header_name name then Inl (InvalidToken name)
      else if \<not> valid_header_value v then Inl (InvalidChar name)
      else Inr (put_header name v res))"

definition getHeader :: "string \<Rightarrow> Res \<Rightarrow> string option" where
  "getHeader name res = map_option snd (map_of (res_headers res) (toLowerCase name))"

text \<open>
  The loop over \<^verbatim>\<open>Object.entries(tunnelResponse.headers)\<close>. An exception leaves the
  loop; \<open>Inl\<close> carries it with the response object as it is then.
\<close>

fun copy_headers :: "(string \<times> string) list \<Rightarrow> Res \<Rightarrow> (http_error \<times> Res) + Res" where
  "copy_headers [] res = Inr res"
| "copy_headers (kv # kvs) res =
     (if toLowerCase (fst kv) \<notin> set HOP_BY_HOP_HEADERS
      then (case setHeader (fst kv) (snd kv) res of
              Inl e \<Rightarrow> Inl (e, res)
            | Inr res' \<Rightarrow> copy_headers kvs res')
      else copy_headers kvs res)"

text \<open>
  The \<^verbatim>\<open>try\<close> block of \<^verbatim>\<open>createProxyMiddleware\<close> (and of \<^verbatim>\<open>createPathBasedProxy\<close>)
  from the point where \<^verbatim>\<open>forwardRequest\<close> has resolved to \<open>tunnelResponse\<close>.
  \<open>decode\<close> is \<^verbatim>\<open>Buffer.from(s, 'base64')\<close>; the empty string is falsy, so it is never
  decoded. A status code outside 100..999 raises before anything is sent (in
  \<^verbatim>\<open>res.status\<close> or, with older Express, in \<^verbatim>\<open>res.end\<close>).
\<close>

definition try_write ::
  "(string \<Rightarrow> 8 word list) \<Rightarrow> string \<Rightarrow> TunnelResponse \<Rightarrow> Res \<Rightarrow> (http_error \<times> Res) + Res" where
  "try_write decode subdomain tunnelResponse res =
     (case copy_headers (rs_headers tunnelResponse) res of
        Inl x \<Rightarrow> Inl x
      | Inr r1 \<Rightarrow>
          (case setHeader ''X-Powered-By'' ''LocalHosted'' r1 of
             Inl e \<Rightarrow> Inl (e, r1)
           | Inr r2 \<Rightarrow>
               (case setHeader ''X-Tunnel-Subdomain'' subdomain r2 of
                  Inl e \<Rightarrow> Inl (e, r2)
                | Inr r3 \<Rightarrow>
                    if rs_statusCode tunnelResponse < 100 \<or> 999 < rs_statusCode tunnelResponse
                    then Inl (InvalidStatus (rs_statusCode tunnelResponse), r3)
                    else
                      let r4 = r3\<lparr>res_statusCode := rs_statusCode tunnelResponse\<rparr>
                      in Inr (case rs_body tunnelResponse of
                                Some b \<Rightarrow>
                                  if b \<noteq> [] then r4\<lparr>res_ended := Ended (decode b)\<rparr>
                                  else r4\<lparr>res_ended := Ended []\<rparr>
                              | None \<Rightarrow> r4\<lparr>res_ended := Ended []\<rparr>))))"

text \<open>\<^verbatim>\<open>message.includes(needle)\<close>.\<close>

fun includes_str :: "string \<Rightarrow> string \<Rightarrow> bool" where
  "includes_str [] needle = (needle = [])"
| "includes_str (c # cs) needle =
     (take (length needle) (c # cs) = needle \<or> includes_str cs needle)"

text \<open>
  \<^verbatim>\<open>res.status(code).json({error, message, subdomain})\<close>. On a response that was
  already sent the call throws again and leaves it as it is. (\<^verbatim>\<open>res.json\<close> also writes
  the headers of its own body, which are not modelled.)
\<close>

definition json_reply :: "int \<Rightarrow> string \<Rightarrow> string \<Rightarrow> string \<Rightarrow> Res \<Rightarrow> Res" where
  "json_reply code err msg subdomain res =
     (if res_ended res \<noteq> NotEnded then res
      else res\<lparr>res_statusCode := code, res_ended := EndedJson err msg subdomain\<rparr>)"

text \<open>The \<^verbatim>\<open>catch\<close> block of \<^verbatim>\<open>createProxyMiddleware\<close>, for the error message \<open>message\<close>.\<close>

definition proxy_catch :: "string \<Rightarrow> string \<Rightarrow> Res \<Rightarrow> Res" where
  "proxy_catch message subdomain res =
     (if includes_str message ''timed out''
      then json_reply 504 ''Gateway Timeout''
             (''The developer'' @ [CHR 0x27] @ ''s local server did not respond in time.'')
             subdomain res
      else if includes_str message ''disconnected'' \<or> includes_str message ''not open''
      then json_reply 502 ''Bad Gateway''
             ''The tunnel connection was lost. The developer may have disconnected.''
             subdomain res
      else json_reply 502 ''Bad Gateway'' (''Failed to proxy request: '' @ message)
             subdomain res)"

text \<open>
  The whole of it: the \<^verbatim>\<open>try\<close> block and, when it throws, the \<^verbatim>\<open>catch\<close> block.
  \<open>message_of\<close> gives the \<^verbatim>\<open>message\<close> of the error objects of Node and Express.
\<close>

definition write_response ::
  "(string \<Rightarrow> 8 word list) \<Rightarrow> (http_error \<Rightarrow> string) \<Rightarrow> string \<Rightarrow> TunnelResponse \<Rightarrow> Res \<Rightarrow> Res"
  where
  "write_response decode message_of subdomain tunnelResponse res =
     (case try_write decode subdomain tunnelResponse res of
        Inr r \<Rightarrow> r
      | Inl (e, r) \<Rightarrow> proxy_catch (message_of e) subdomain r)"

section \<open>Vocabulary of the statements\<close>

text \<open>
  The calls that the loop of \<^verbatim>\<open>remove\<close> makes for a pending table: for each entry, in
  the table's order, one \<^verbatim>\<open>clearTimeout\<close> and one \<^verbatim>\<open>reject\<close> with the
  disconnected error.
\<close>

definition reject_calls :: "(string \<times> pending) list \<Rightarrow> event list" where
  "reject_calls ps =
     concat (map (\<lambda>e. [ClearTimeout (p_timeout (snd e)),
                        Reject (p_promise (snd e)) TunnelDisconnected]) ps)"

text \<open>The \<^verbatim>\<open>close(1000, 'Tunnel removed')\<close> that is made only on an open socket.\<close>

definition close_calls :: "world \<Rightarrow> nat \<Rightarrow> event list" where
  "close_calls w ch = (if readyState w ch = OPEN then [WsClose ch 1000 ''Tunnel removed''] else [])"

text \<open>
  All the calls of \<^verbatim>\<open>remove\<close> on a subdomain held by client object \<open>c\<close>: the rejections,
  the clearing of the table, the close, the deletion from the registry's map.
\<close>

definition evict_calls :: "world \<Rightarrow> string \<Rightarrow> nat \<Rightarrow> event list" where
  "evict_calls w subdomain c =
     reject_calls (c_pendingRequests (objs w c)) @ [PendingClear c]
       @ close_calls w (c_ws (objs w c)) @ [TunnelsDelete subdomain]"

text \<open>
  The registry's map as the calls of a trace leave it: only \<^verbatim>\<open>tunnels.set\<close> and
  \<^verbatim>\<open>tunnels.delete\<close> change it. Replaying a prefix of the calls of an operation gives
  the map that \<^verbatim>\<open>get\<close> reads at that point of the operation.
\<close>

fun replay_tunnels :: "event list \<Rightarrow> (string \<times> nat) list \<Rightarrow> (string \<times> nat) list" where
  "replay_tunnels [] ts = ts"
| "replay_tunnels (TunnelsSet s c # es) ts = replay_tunnels es (AList.update s c ts)"
| "replay_tunnels (TunnelsDelete s # es) ts = replay_tunnels es (AList.delete s ts)"
| "replay_tunnels (e # es) ts = replay_tunnels es ts"

text \<open>The trace entry of one \<^verbatim>\<open>ws.send\<close>.\<close>

definition send_event :: "nat \<Rightarrow> frame \<Rightarrow> send_outcome \<Rightarrow> event" where
  "send_event ch f outcome =
     (case outcome of Sent \<Rightarrow> WsSend ch f | Throws e \<Rightarrow> WsSendThrew ch f e)"

text \<open>
  The values that \<^verbatim>\<open>uuidv4()\<close> has returned so far, and the invariant that the id of
  every registered tunnel is one of them.
\<close>

definition issued :: "world \<Rightarrow> string set" where
  "issued w = uuid_source w ` {..<uuid_count w}"

definition ids_issued :: "world \<Rightarrow> bool" where
  "ids_issued w = (\<forall>e \<in> set (tunnels w). c_id (objs w (snd e)) \<in> issued w)"

text \<open>
  The headers of a tunnel response that the proxy copies, the list of all headers it
  writes, in order, and the value that a sequence of \<^verbatim>\<open>setHeader\<close> calls leaves under a
  name (names compared without case, the last call wins).
\<close>

definition kept_headers :: "TunnelResponse \<Rightarrow> (string \<times> string) list" where
  "kept_headers T =
     filter (\<lambda>kv. toLowerCase (fst kv) \<notin> set HOP_BY_HOP_HEADERS) (rs_headers T)"

definition written_headers :: "string \<Rightarrow> TunnelResponse \<Rightarrow> (string \<times> string) list" where
  "written_headers subdomain T =
     kept_headers T @ [(''X-Powered-By'', ''LocalHosted''), (''X-Tunnel-Subdomain'', subdomain)]"

definition last_written :: "(string \<times> string) list \<Rightarrow> string \<Rightarrow> string option" where
  "last_written hs name =
     map_of (rev (map (\<lambda>kv. (toLowerCase (fst kv), snd kv)) hs)) (toLowerCase name)"

text \<open>The tunnel responses that the HTTP layer accepts from the proxy for a subdomain.\<close>

definition accepted :: "string \<Rightarrow> TunnelResponse \<Rightarrow> bool" where
  "accepted subdomain T =
     (list_all (\<lambda>kv. valid_header_name (fst kv) \<and> valid_header_value (snd kv)) (kept_headers T)
      \<and> valid_header_value subdomain
      \<and> 100 \<le> rs_statusCode T \<and> rs_statusCode T \<le> 999)"

section \<open>Example worlds\<close>

text \<open>
  A registry with no tunnel, every socket open and a generator whose \<open>n\<close>-th UUID is
  \<open>n + 1\<close> times the letter \<open>u\<close>; the same after \<^verbatim>\<open>register('a', 3000, ws7)\<close>; then
  after a forwarded request whose frame was sent, and after one whose send threw.
\<close>

definition blank_client :: TunnelClient where
  "blank_client = \<lparr>c_id = [], c_subdomain = [], c_localPort = 0, c_ws = 0, c_connectedAt = 0,
                    c_requestCount = 0, c_pendingRequests = []\<rparr>"

definition init_world :: world where
  "init_world = \<lparr>tunnels = [], objs = (\<lambda>_. blank_client), readyState = (\<lambda>_. OPEN),
                  timers = [], promises = (\<lambda>_. None), trace = [], next_handle = 0,
                  uuid_source = (\<lambda>n. replicate (Suc n) (CHR ''u'')), uuid_count = 0\<rparr>"

definition req_1 :: TunnelRequest where
  "req_1 = \<lparr>rq_id = ''r1'', rq_method = ''GET'', rq_path = ''/health'', rq_headers = [],
             rq_body = None\<rparr>"

definition resp_1 :: TunnelResponse where
  "resp_1 = \<lparr>rs_id = ''r1'', rs_statusCode = 200,
              rs_headers = [(''content-type'', ''text/plain''), (''Connection'', ''close'')],
              rs_body = Some ''T0s=''\<rparr>"

definition resp_unknown :: TunnelResponse where
  "resp_unknown = \<lparr>rs_id = ''zz'', rs_statusCode = 200, rs_headers = [], rs_body = None\<rparr>"

definition world_reg :: world where
  "world_reg = snd (register ''a'' 3000 7 0 init_world)"

definition world_fwd :: world where
  "world_fwd = snd (forwardRequest ''a'' req_1 30000 Sent world_reg)"

definition world_threw :: world where
  "world_threw = snd (forwardRequest ''a'' req_1 30000 (Throws ''boom'') world_reg)"

text \<open>
  A response object that already carries a header of the surrounding middleware, a
  stand-in for the base64 decoder that knows the encoding of \<open>OK\<close>, and the messages of
  Node's errors (with numbers in decimal).
\<close>

definition res_0 :: Res where
  "res_0 = \<lparr>res_headers = [(''x-frame-options'', (''X-Frame-Options'', ''SAMEORIGIN''))],
            res_statusCode = 200, res_ended = NotEnded\<rparr>"

definition decode_0 :: "string \<Rightarrow> 8 word list" where
  "decode_0 s = (if s = ''T0s='' then [79, 75] else [])"

fun show_nat :: "nat \<Rightarrow> string" where
  "show_nat n =
     (if n < 10 then [''0123456789'' ! n]
      else show_nat (n div 10) @ [''0123456789'' ! (n mod 10)])"

declare show_nat.simps [simp del]

definition show_int :: "int \<Rightarrow> string" where
  "show_int i = (if i < 0 then ''-'' @ show_nat (nat (- i)) else show_nat (nat i))"

definition node_message :: "http_error \<Rightarrow> string" where
  "node_message e =
     (case e of
        HeadersSent \<Rightarrow> ''Cannot set headers after they are sent to the client''
      | InvalidToken name \<Rightarrow>
          ''Header name must be a valid HTTP token ['' @ [CHR 0x22] @ name @ [CHR 0x22] @ '']''
      | InvalidChar name \<Rightarrow>
          ''Invalid character in header content ['' @ [CHR 0x22] @ name @ [CHR 0x22] @ '']''
      | InvalidStatus code \<Rightarrow> ''Invalid status code: '' @ show_int code)"

text \<open>
  A tunnel response that names \<open>X-Powered-By\<close> itself and \<open>Content-Type\<close> twice, and one
  with a header name that is no HTTP token.
\<close>

definition resp_override :: TunnelResponse where
  "resp_override = \<lparr>rs_id = ''r1'', rs_statusCode = 200,
       rs_headers = [(''X-Powered-By'', ''Evil''), (''Content-Type'', ''text/html''),
                     (''content-type'', ''text/plain'')],
       rs_body = None\<rparr>"

definition resp_bad_name :: TunnelResponse where
  "resp_bad_name = \<lparr>rs_id = ''r1'', rs_statusCode = 200,
       rs_headers = [(''bad name'', ''x'')], rs_body = None\<rparr>"

section \<open>Properties of sanitizeSubdomain\<close>

lemma lower_alnum_label: "lower_alnum c \<Longrightarrow> label_char c \<and> c \<noteq> CHR ''-''"
  unfolding lower_alnum_def label_char_def by auto

lemma label_char_cases: "label_char c \<longleftrightarrow> lower_alnum c \<or> c = CHR ''-''"
  unfolding lower_alnum_def label_char_def by auto

lemma alnum_lower: "alnum c \<Longrightarrow> lower_alnum (lower_char c)"
  unfolding alnum_def lower_alnum_def lower_char_def lower_table_def by auto

lemma collapse_no_dash: "CHR ''-'' \<notin> set s \<Longrightarrow> collapse_dashes s = s"
  by (induction s rule: collapse_dashes.induct) auto

lemma trim_no_dash: "CHR ''-'' \<notin> set s \<Longrightarrow> trim_dash s = s"
proof -
  assume h: "CHR ''-'' \<notin> set s"
  then have "s \<noteq> [] \<Longrightarrow> last s \<noteq> CHR ''-''" using last_in_set by metis
  moreover have "s \<noteq> [] \<Longrightarrow> hd s \<noteq> CHR ''-''" using h hd_in_set by metis
  ultimately show ?thesis by (cases s) (auto simp: trim_dash_def)
qed

lemma collapse_all_dashes: "collapse_dashes (replicate (Suc n) (CHR ''-'')) = ''-''"
  by (induction n) auto

lemma sanitize_alnum:
  assumes "list_all alnum x"
  shows "trim_dash (collapse_dashes (replace_invalid (toLowerCase x))) = toLowerCase x"
proof -
  have a: "\<forall>c \<in> set (toLowerCase x). lower_alnum c"
    using assms by (auto simp: toLowerCase_def list_all_iff alnum_lower)
  then have r: "replace_invalid (toLowerCase x) = toLowerCase x"
    unfolding replace_invalid_def by (auto simp: lower_alnum_label intro: map_idI)
  have "CHR ''-'' \<notin> set (toLowerCase x)"
    using a lower_alnum_label by blast
  then show ?thesis by (simp add: r collapse_no_dash trim_no_dash)
qed

lemma sanitize_blank:
  assumes "s \<noteq> []" and "\<forall>c \<in> set (toLowerCase s). \<not> lower_alnum c"
  shows "sanitizeSubdomain s = []"
proof -
  have "replace_invalid (toLowerCase s) = map (\<lambda>c. CHR ''-'') (toLowerCase s)"
    unfolding replace_invalid_def using assms(2) by (intro map_cong) (auto simp: label_char_cases)
  then have "replace_invalid (toLowerCase s) = replicate (length s) (CHR ''-'')"
    by (simp add: map_replicate_const toLowerCase_def)
  moreover obtain n where "length s = Suc n" using assms(1) by (cases s) auto
  ultimately have "collapse_dashes (replace_invalid (toLowerCase s)) = ''-''"
    by (simp only: collapse_all_dashes)
  then show ?thesis by (simp add: sanitizeSubdomain_def trim_dash_def)
qed

text \<open>
  C8. Sanitize is claimed idempotent. The code trims the dashes before it truncates, so a
  dash that lands on position 63 survives the first pass and is trimmed by the second. On
  the 64 characters \<open>a\<close> (62 times), \<open>-\<close>, \<open>b\<close> the first pass yields 62 times
  \<open>a\<close> and a final dash, which is not a label of the spec's grammar, and the second pass
  yields 62 times \<open>a\<close>.
\<close>

theorem sanitize_not_idempotent:
  "sanitizeSubdomain (replicate 62 (CHR ''a'') @ ''-b'') = replicate 62 (CHR ''a'') @ ''-'' \<and>
   sanitizeSubdomain (sanitizeSubdomain (replicate 62 (CHR ''a'') @ ''-b''))
     = replicate 62 (CHR ''a'') \<and>
   sanitizeSubdomain (sanitizeSubdomain (replicate 62 (CHR ''a'') @ ''-b''))
     \<noteq> sanitizeSubdomain (replicate 62 (CHR ''a'') @ ''-b'') \<and>
   \<not> spec_label (sanitizeSubdomain (replicate 62 (CHR ''a'') @ ''-b''))"
  by code_simp

text \<open>
  C9 (amended). For every input, Sanitize yields at most 63 characters. It yields exactly 63
  whenever the string left after lower-casing, replacing, collapsing and trimming still has
  63 characters or more; in particular for every input longer than 63 that consists of
  ASCII letters and digits only.
\<close>

theorem sanitize_length:
  "length (sanitizeSubdomain x) \<le> 63 \<and>
   (63 \<le> length (trim_dash (collapse_dashes (replace_invalid (toLowerCase x))))
      \<longrightarrow> length (sanitizeSubdomain x) = 63) \<and>
   (63 < length x \<and> list_all alnum x \<longrightarrow> length (sanitizeSubdomain x) = 63)"
proof (intro conjI impI)
  show "length (sanitizeSubdomain x) \<le> 63" by (simp add: sanitizeSubdomain_def)
next
  assume "63 \<le> length (trim_dash (collapse_dashes (replace_invalid (toLowerCase x))))"
  then show "length (sanitizeSubdomain x) = 63" by (simp add: sanitizeSubdomain_def)
next
  assume h: "63 < length x \<and> list_all alnum x"
  then have "trim_dash (collapse_dashes (replace_invalid (toLowerCase x))) = toLowerCase x"
    by (simp add: sanitize_alnum)
  with h show "length (sanitizeSubdomain x) = 63"
    by (simp add: sanitizeSubdomain_def toLowerCase_def)
qed

theorem sanitize_length_witness:
  "63 < length (replicate 64 (CHR ''a'')) \<and> list_all alnum (replicate 64 (CHR ''a'')) \<and>
   length (sanitizeSubdomain (replicate 64 (CHR ''a''))) = 63"
  using sanitize_length [of "replicate 64 (CHR ''a'')"] by (simp add: alnum_def list_all_iff)

text \<open>
  C9 as stated fails: the 64 characters \<open>a\<close> followed by 63 spaces are sanitized to the
  single character \<open>a\<close>.
\<close>

theorem sanitize_length_counterexample:
  "63 < length (CHR ''a'' # replicate 63 (CHR '' '')) \<and>
   sanitizeSubdomain (CHR ''a'' # replicate 63 (CHR '' '')) = ''a'' \<and>
   length (sanitizeSubdomain (CHR ''a'' # replicate 63 (CHR '' ''))) \<noteq> 63"
  by code_simp

section \<open>The runtime and remove\<close>

lemma settle_fields [simp]:
  "tunnels (settle p out w) = tunnels w" "objs (settle p out w) = objs w"
  "readyState (settle p out w) = readyState w" "timers (settle p out w) = timers w"
  "trace (settle p out w) = trace w" "next_handle (settle p out w) = next_handle w"
  "uuid_source (settle p out w) = uuid_source w" "uuid_count (settle p out w) = uuid_count w"
  by (simp_all add: settle_def split: option.splits)

lemma settle_promises:
  "promises (settle p out w) q =
     (if q = p then (case promises w p of None \<Rightarrow> Some out | Some x \<Rightarrow> Some x) else promises w q)"
  by (simp add: settle_def split: option.splits)

lemma reject_pending_fields [simp]:
  "tunnels (reject_pending e w) = tunnels w" "objs (reject_pending e w) = objs w"
  "readyState (reject_pending e w) = readyState w"
  "next_handle (reject_pending e w) = next_handle w"
  "uuid_source (reject_pending e w) = uuid_source w"
  "uuid_count (reject_pending e w) = uuid_count w"
  "trace (reject_pending e w) =
     trace w @ [ClearTimeout (p_timeout (snd e)), Reject (p_promise (snd e)) TunnelDisconnected]"
  "timers (reject_pending e w) = AList.delete (p_timeout (snd e)) (timers w)"
  by (simp_all add: reject_pending_def reject_def clearTimeout_def)

lemma reject_pending_promises:
  "promises (reject_pending e w) q =
     (if q = p_promise (snd e)
      then (case promises w q of None \<Rightarrow> Some (Inl TunnelDisconnected) | Some x \<Rightarrow> Some x)
      else promises w q)"
  by (simp add: reject_pending_def reject_def clearTimeout_def settle_promises)

lemma fold_reject_fields [simp]:
  "tunnels (fold reject_pending ps w) = tunnels w"
  "objs (fold reject_pending ps w) = objs w"
  "readyState (fold reject_pending ps w) = readyState w"
  "next_handle (fold reject_pending ps w) = next_handle w"
  "uuid_source (fold reject_pending ps w) = uuid_source w"
  "uuid_count (fold reject_pending ps w) = uuid_count w"
  by (induction ps arbitrary: w) simp_all

lemma fold_reject_trace:
  "trace (fold reject_pending ps w) = trace w @ reject_calls ps"
  by (induction ps arbitrary: w) (simp_all add: reject_calls_def)

lemma fold_reject_timers:
  "map_of (timers (fold reject_pending ps w)) t =
     (if t \<in> (\<lambda>e. p_timeout (snd e)) ` set ps then None else map_of (timers w) t)"
  by (induction ps arbitrary: w) (auto simp: delete_conv')

lemma fold_reject_promises:
  "promises (fold reject_pending ps w) q =
     (if q \<in> (\<lambda>e. p_promise (snd e)) ` set ps
      then (case promises w q of None \<Rightarrow> Some (Inl TunnelDisconnected) | Some x \<Rightarrow> Some x)
      else promises w q)"
  by (induction ps arbitrary: w) (auto simp: reject_pending_promises split: option.splits)

lemma update_fresh_key: "k \<notin> fst ` set al \<Longrightarrow> AList.update k v al = al @ [(k, v)]"
  by (induction al) auto

lemma remove_tunnel_absent: "get subdomain w = None \<Longrightarrow> remove_tunnel subdomain w = w"
  by (simp add: get_def remove_tunnel_def)

lemma remove_tunnel_present:
  assumes "get subdomain w = Some c"
  shows "tunnels (remove_tunnel subdomain w) = AList.delete subdomain (tunnels w)"
    and "objs (remove_tunnel subdomain w) = (objs w)(c := (objs w c)\<lparr>c_pendingRequests := []\<rparr>)"
    and "readyState (remove_tunnel subdomain w) =
           (if readyState w (c_ws (objs w c)) = OPEN
            then (readyState w)(c_ws (objs w c) := CLOSING) else readyState w)"
    and "trace (remove_tunnel subdomain w) = trace w @ evict_calls w subdomain c"
    and "map_of (timers (remove_tunnel subdomain w)) t =
           (if t \<in> (\<lambda>e. p_timeout (snd e)) ` set (c_pendingRequests (objs w c)) then None
            else map_of (timers w) t)"
    and "promises (remove_tunnel subdomain w) q =
           (if q \<in> (\<lambda>e. p_promise (snd e)) ` set (c_pendingRequests (objs w c))
            then (case promises w q of None \<Rightarrow> Some (Inl TunnelDisconnected) | Some x \<Rightarrow> Some x)
            else promises w q)"
    and "next_handle (remove_tunnel subdomain w) = next_handle w"
    and "uuid_source (remove_tunnel subdomain w) = uuid_source w"
    and "uuid_count (remove_tunnel subdomain w) = uuid_count w"
  using assms
  by (simp_all add: get_def remove_tunnel_def Let_def ws_close_def close_calls_def
        evict_calls_def pending_clear_def tunnels_delete_def
        fold_reject_trace fold_reject_timers fold_reject_promises)

lemma get_remove_tunnel:
  "get s (remove_tunnel subdomain w) = (if s = subdomain then None else get s w)"
proof (cases "get subdomain w")
  case None
  then show ?thesis by (auto simp: remove_tunnel_absent)
next
  case (Some c)
  then show ?thesis by (simp add: get_def remove_tunnel_present(1) delete_conv')
qed

lemma remove_tunnel_keeps [simp]:
  "next_handle (remove_tunnel subdomain w) = next_handle w"
  "uuid_source (remove_tunnel subdomain w) = uuid_source w"
  "uuid_count (remove_tunnel subdomain w) = uuid_count w"
proof -
  show "next_handle (remove_tunnel subdomain w) = next_handle w"
    by (cases "get subdomain w") (simp_all add: remove_tunnel_absent remove_tunnel_present(7))
  show "uuid_source (remove_tunnel subdomain w) = uuid_source w"
    by (cases "get subdomain w") (simp_all add: remove_tunnel_absent remove_tunnel_present(8))
  show "uuid_count (remove_tunnel subdomain w) = uuid_count w"
    by (cases "get subdomain w") (simp_all add: remove_tunnel_absent remove_tunnel_present(9))
qed

lemma remove_tunnel_id: "c_id (objs (remove_tunnel subdomain w) d) = c_id (objs w d)"
  by (cases "get subdomain w") (simp_all add: remove_tunnel_absent remove_tunnel_present(2))

lemma register_result:
  "register subdomain localPort ch now w =
     (let w1 = remove_tunnel subdomain w; c = next_handle w
      in (c, w1\<lparr>tunnels := AList.update subdomain c (tunnels w1),
                objs := (objs w1)(c := \<lparr>c_id = uuid_source w (uuid_count w),
                   c_subdomain = subdomain, c_localPort = localPort, c_ws = ch,
                   c_connectedAt = now, c_requestCount = 0, c_pendingRequests = []\<rparr>),
                trace := trace w1 @ [TunnelsSet subdomain c],
                next_handle := Suc c,
                uuid_count := Suc (uuid_count w)\<rparr>))"
proof (cases "get subdomain w")
  case None
  then have "remove_tunnel subdomain w = w" by (rule remove_tunnel_absent)
  with None show ?thesis
    by (simp add: register_def Let_def get_def uuidv4_def tunnels_set_def)
next
  case (Some c)
  then have "map_of (tunnels w) subdomain = Some c" by (simp add: get_def)
  then show ?thesis by (simp add: register_def Let_def uuidv4_def tunnels_set_def)
qed

lemma register_get:
  "get subdomain (snd (register subdomain localPort ch now w)) = Some (next_handle w)"
  "fst (register subdomain localPort ch now w) = next_handle w"
  "objs (snd (register subdomain localPort ch now w)) (next_handle w) =
     \<lparr>c_id = uuid_source w (uuid_count w), c_subdomain = subdomain, c_localPort = localPort,
      c_ws = ch, c_connectedAt = now, c_requestCount = 0, c_pendingRequests = []\<rparr>"
  by (simp_all add: register_result Let_def get_def update_conv')

section \<open>forwardRequest\<close>

lemma before_send_result:
  "before_send c request p timeoutMs w =
     (next_handle w,
      w\<lparr>objs := (objs w)(c := (objs w c)\<lparr>c_pendingRequests :=
            AList.update (rq_id request) \<lparr>p_promise = p, p_timeout = next_handle w\<rparr>
              (c_pendingRequests (objs w c))\<rparr>),
        timers := AList.update (next_handle w) (c, rq_id request, p) (timers w),
        trace := trace w @ [SetTimeout (next_handle w) timeoutMs,
                            PendingSet c (rq_id request)
                              \<lparr>p_promise = p, p_timeout = next_handle w\<rparr>],
        next_handle := Suc (next_handle w)\<rparr>)"
  by (simp add: before_send_def setTimeout_def pending_set_def Let_def)

lemma forward_open:
  assumes "get subdomain w = Some c" and "readyState w (c_ws (objs w c)) = OPEN"
  shows "forwardRequest subdomain request timeoutMs outcome w =
     (next_handle w,
      executor c request (next_handle w) timeoutMs outcome
        (w\<lparr>promises := (promises w)(next_handle w := None), next_handle := Suc (next_handle w)\<rparr>))"
  using assms by (simp add: forwardRequest_def get_def Let_def)

lemma forward_no_tunnel:
  "get subdomain w = None \<Longrightarrow>
   forwardRequest subdomain request timeoutMs outcome w =
     (next_handle w,
      settle (next_handle w) (Inl (NoTunnelFound subdomain))
        (w\<lparr>promises := (promises w)(next_handle w := None), next_handle := Suc (next_handle w)\<rparr>))"
  by (simp add: forwardRequest_def get_def Let_def)

lemma forward_not_open:
  "get subdomain w = Some c \<Longrightarrow> readyState w (c_ws (objs w c)) \<noteq> OPEN \<Longrightarrow>
   forwardRequest subdomain request timeoutMs outcome w =
     (next_handle w,
      settle (next_handle w) (Inl TunnelNotOpen)
        (remove_tunnel subdomain
          (w\<lparr>promises := (promises w)(next_handle w := None), next_handle := Suc (next_handle w)\<rparr>)))"
  by (simp add: forwardRequest_def get_def Let_def)

lemma executor_fields:
  "tunnels (executor c request p timeoutMs outcome w) = tunnels w"
  "readyState (executor c request p timeoutMs outcome w) = readyState w"
  "timers (executor c request p timeoutMs outcome w) =
     AList.update (next_handle w) (c, rq_id request, p) (timers w)"
  "trace (executor c request p timeoutMs outcome w) =
     trace w @ [SetTimeout (next_handle w) timeoutMs,
                PendingSet c (rq_id request) \<lparr>p_promise = p, p_timeout = next_handle w\<rparr>,
                send_event (c_ws (objs w c)) (RequestFrame request) outcome]"
  "c_pendingRequests (objs (executor c request p timeoutMs outcome w) d) =
     (if d = c then AList.update (rq_id request) \<lparr>p_promise = p, p_timeout = next_handle w\<rparr>
                      (c_pendingRequests (objs w c))
      else c_pendingRequests (objs w d))"
  "c_requestCount (objs (executor c request p timeoutMs outcome w) d) =
     (if d = c \<and> outcome = Sent then Suc (c_requestCount (objs w c))
      else c_requestCount (objs w d))"
  "promises (executor c request p timeoutMs outcome w) q =
     (case outcome of
        Sent \<Rightarrow> promises w q
      | Throws e \<Rightarrow> if q = p then (case promises w p of None \<Rightarrow> Some (Inl (SendThrew e))
                                    | Some x \<Rightarrow> Some x)
                    else promises w q)"
  "c_id (objs (executor c request p timeoutMs outcome w) d) = c_id (objs w d)"
  "uuid_source (executor c request p timeoutMs outcome w) = uuid_source w"
  "uuid_count (executor c request p timeoutMs outcome w) = uuid_count w"
  by (simp_all add: executor_def before_send_result Let_def ws_send_def count_request_def
        send_event_def settle_promises split: send_outcome.splits)

lemma ws_send_fields [simp]:
  "tunnels (ws_send ch f outcome w) = tunnels w" "objs (ws_send ch f outcome w) = objs w"
  "trace (ws_send ch f outcome w) = trace w @ [send_event ch f outcome]"
  by (simp_all add: ws_send_def send_event_def split: send_outcome.splits)

section \<open>The example worlds, evaluated\<close>

lemma req_1_id [simp]: "rq_id req_1 = ''r1''"
  by (simp add: req_1_def)

lemma world_reg_eval:
  "world_reg = \<lparr>tunnels = [(''a'', 0)],
      objs = (\<lambda>_. blank_client)(0 := \<lparr>c_id = ''u'', c_subdomain = ''a'', c_localPort = 3000,
         c_ws = 7, c_connectedAt = 0, c_requestCount = 0, c_pendingRequests = []\<rparr>),
      readyState = (\<lambda>_. OPEN), timers = [], promises = (\<lambda>_. None),
      trace = [TunnelsSet ''a'' 0],
      next_handle = 1,
      uuid_source = (\<lambda>n. replicate (Suc n) (CHR ''u'')), uuid_count = 1\<rparr>"
  by (simp add: world_reg_def register_def init_world_def Let_def uuidv4_def tunnels_set_def)

lemma world_fwd_eval:
  "world_fwd = \<lparr>tunnels = [(''a'', 0)],
      objs = (\<lambda>_. blank_client)(0 := \<lparr>c_id = ''u'', c_subdomain = ''a'', c_localPort = 3000,
         c_ws = 7, c_connectedAt = 0, c_requestCount = 1,
         c_pendingRequests = [(''r1'', \<lparr>p_promise = 1, p_timeout = 2\<rparr>)]\<rparr>),
      readyState = (\<lambda>_. OPEN), timers = [(2, (0, ''r1'', 1))], promises = (\<lambda>_. None),
      trace = [TunnelsSet ''a'' 0, SetTimeout 2 30000,
               PendingSet 0 ''r1'' \<lparr>p_promise = 1, p_timeout = 2\<rparr>,
               WsSend 7 (RequestFrame req_1)],
      next_handle = 3,
      uuid_source = (\<lambda>n. replicate (Suc n) (CHR ''u'')), uuid_count = 1\<rparr>"
  by (simp add: world_fwd_def world_reg_eval forwardRequest_def executor_def before_send_result
        ws_send_def count_request_def Let_def numeral_2_eq_2 numeral_3_eq_3)

lemma world_threw_eval:
  "world_threw = \<lparr>tunnels = [(''a'', 0)],
      objs = (\<lambda>_. blank_client)(0 := \<lparr>c_id = ''u'', c_subdomain = ''a'', c_localPort = 3000,
         c_ws = 7, c_connectedAt = 0, c_requestCount = 0,
         c_pendingRequests = [(''r1'', \<lparr>p_promise = 1, p_timeout = 2\<rparr>)]\<rparr>),
      readyState = (\<lambda>_. OPEN), timers = [(2, (0, ''r1'', 1))],
      promises = (\<lambda>_. None)(1 := Some (Inl (SendThrew ''boom''))),
      trace = [TunnelsSet ''a'' 0, SetTimeout 2 30000,
               PendingSet 0 ''r1'' \<lparr>p_promise = 1, p_timeout = 2\<rparr>,
               WsSendThrew 7 (RequestFrame req_1) ''boom''],
      next_handle = 3,
      uuid_source = (\<lambda>n. replicate (Suc n) (CHR ''u'')), uuid_count = 1\<rparr>"
  by (simp add: world_threw_def world_reg_eval forwardRequest_def executor_def before_send_result
        ws_send_def settle_def Let_def numeral_2_eq_2 numeral_3_eq_3)

section \<open>Replaying the registry's map, and the UUIDs\<close>

lemma replay_append:
  "replay_tunnels (es @ fs) ts = replay_tunnels fs (replay_tunnels es ts)"
  by (induction es ts rule: replay_tunnels.induct) simp_all

lemma replay_reject_calls [simp]: "replay_tunnels (reject_calls ps) ts = ts"
  by (induction ps) (simp_all add: reject_calls_def)

lemma replay_close_calls [simp]: "replay_tunnels (close_calls w ch) ts = ts"
  by (simp add: close_calls_def)

lemma replay_quiet:
  "\<forall>s. TunnelsDelete s \<notin> set es \<Longrightarrow> \<forall>s d. TunnelsSet s d \<notin> set es \<Longrightarrow> replay_tunnels es ts = ts"
  by (induction es ts rule: replay_tunnels.induct) auto

lemma evict_calls_split:
  "evict_calls w subdomain c =
     (reject_calls (c_pendingRequests (objs w c)) @ [PendingClear c]
        @ close_calls w (c_ws (objs w c))) @ [TunnelsDelete subdomain]"
  by (simp add: evict_calls_def)

lemma quiet_part:
  "TunnelsDelete s \<notin> set (reject_calls ps @ [PendingClear c] @ close_calls w ch)"
  "TunnelsSet s d \<notin> set (reject_calls ps @ [PendingClear c] @ close_calls w ch)"
  by (auto simp: reject_calls_def close_calls_def)

lemma no_set_in_evict: "TunnelsSet s d \<notin> set (evict_calls w subdomain c)"
  by (auto simp: evict_calls_def reject_calls_def close_calls_def)

lemma prefix_of_snoc:
  assumes "pre @ post = xs @ [x]" and "post \<noteq> []"
  shows "pre @ butlast post = xs"
proof -
  from assms(2) have "butlast (pre @ post) = pre @ butlast post" by (simp add: butlast_append)
  with assms(1) show ?thesis by simp
qed

lemma replay_evict_prefix:
  assumes g: "get subdomain w = Some old"
    and p: "pre @ post = evict_calls w subdomain old @ [TunnelsSet subdomain c]"
    and n: "post \<noteq> []"
  shows "map_of (replay_tunnels pre (tunnels w)) subdomain =
           (if TunnelsDelete subdomain \<in> set pre then None else Some old)"
proof -
  let ?A = "reject_calls (c_pendingRequests (objs w old)) @ [PendingClear old]
              @ close_calls w (c_ws (objs w old))"
  from p n have e: "pre @ butlast post = ?A @ [TunnelsDelete subdomain]"
    using prefix_of_snoc [of pre post "evict_calls w subdomain old" "TunnelsSet subdomain c"]
    by (simp add: evict_calls_def)
  show ?thesis
  proof (cases "butlast post = []")
    case True
    with e have pre: "pre = ?A @ [TunnelsDelete subdomain]" by simp
    have "replay_tunnels pre (tunnels w) = AList.delete subdomain (tunnels w)"
      unfolding pre by (simp add: replay_append)
    moreover have "TunnelsDelete subdomain \<in> set pre" unfolding pre by simp
    ultimately show ?thesis by (simp add: delete_conv')
  next
    case False
    with e have "pre @ butlast (butlast post) = ?A"
      using prefix_of_snoc [of pre "butlast post" ?A "TunnelsDelete subdomain"] by simp
    then have sub: "set pre \<subseteq> set ?A"
      by (metis Un_upper1 set_append)
    have q1: "\<forall>s. TunnelsDelete s \<notin> set pre" and q2: "\<forall>s d. TunnelsSet s d \<notin> set pre"
      using sub quiet_part by blast+
    then have "replay_tunnels pre (tunnels w) = tunnels w" by (rule replay_quiet)
    with g q1 show ?thesis by (simp add: get_def)
  qed
qed

lemma issued_Suc: "issued (w\<lparr>uuid_count := Suc (uuid_count w)\<rparr>) = insert (uuid_source w (uuid_count w)) (issued w)"
  by (auto simp: issued_def lessThan_Suc)

lemma fresh_uuid: "inj (uuid_source w) \<Longrightarrow> uuid_source w (uuid_count w) \<notin> issued w"
  by (auto simp: issued_def inj_eq)

lemma set_update_subset: "set (AList.update k v al) \<subseteq> insert (k, v) (set al)"
  by (induction al) auto

lemma set_delete_subset: "set (AList.delete k al) \<subseteq> set al"
  by (induction al) auto

lemma ids_issued_remove: "ids_issued w \<Longrightarrow> ids_issued (remove_tunnel subdomain w)"
proof (cases "get subdomain w")
  case None
  assume "ids_issued w"
  moreover from None have "remove_tunnel subdomain w = w" by (rule remove_tunnel_absent)
  ultimately show ?thesis by simp
next
  case (Some c)
  assume a: "ids_issued w"
  have i: "issued (remove_tunnel subdomain w) = issued w" by (simp add: issued_def)
  have t: "set (tunnels (remove_tunnel subdomain w)) \<subseteq> set (tunnels w)"
    by (simp add: remove_tunnel_present(1) [OF Some] set_delete_subset)
  show ?thesis
    unfolding ids_issued_def
  proof
    fix e assume "e \<in> set (tunnels (remove_tunnel subdomain w))"
    with t have "e \<in> set (tunnels w)" by blast
    with a have "c_id (objs w (snd e)) \<in> issued w" by (simp add: ids_issued_def)
    then show "c_id (objs (remove_tunnel subdomain w) (snd e)) \<in> issued (remove_tunnel subdomain w)"
      by (simp only: i remove_tunnel_id)
  qed
qed

lemma ids_issued_register:
  assumes "ids_issued w"
  shows "ids_issued (snd (register subdomain localPort ch now w))"
proof -
  let ?w1 = "remove_tunnel subdomain w"
  let ?w' = "snd (register subdomain localPort ch now w)"
  have a: "ids_issued ?w1" using assms by (rule ids_issued_remove)
  have i: "issued ?w' = insert (uuid_source w (uuid_count w)) (issued ?w1)"
    by (auto simp: register_result Let_def issued_def lessThan_Suc)
  have t: "set (tunnels ?w') \<subseteq> insert (subdomain, next_handle w) (set (tunnels ?w1))"
    by (simp add: register_result Let_def set_update_subset)
  have o: "c_id (objs ?w' d) =
             (if d = next_handle w then uuid_source w (uuid_count w) else c_id (objs ?w1 d))" for d
    by (simp add: register_result Let_def)
  show ?thesis
    unfolding ids_issued_def i
  proof
    fix e assume "e \<in> set (tunnels ?w')"
    with t have "e = (subdomain, next_handle w) \<or> e \<in> set (tunnels ?w1)" by blast
    with a show "c_id (objs ?w' (snd e)) \<in> insert (uuid_source w (uuid_count w)) (issued ?w1)"
      by (auto simp: o ids_issued_def)
  qed
qed

lemma ids_issued_forward:
  assumes "ids_issued w"
  shows "ids_issued (snd (forwardRequest subdomain request timeoutMs outcome w))"
proof -
  let ?w0 = "w\<lparr>promises := (promises w)(next_handle w := None), next_handle := Suc (next_handle w)\<rparr>"
  have a0: "ids_issued ?w0" using assms by (simp add: ids_issued_def issued_def)
  show ?thesis
  proof (cases "get subdomain w")
    case None
    with a0 show ?thesis by (simp add: forward_no_tunnel ids_issued_def issued_def)
  next
    case (Some c)
    show ?thesis
    proof (cases "readyState w (c_ws (objs w c)) = OPEN")
      case True
      with assms Some show ?thesis
        by (simp add: forward_open executor_fields ids_issued_def issued_def)
    next
      case False
      have "ids_issued (remove_tunnel subdomain ?w0)" using a0 by (rule ids_issued_remove)
      with False Some show ?thesis
        by (simp add: forward_not_open ids_issued_def issued_def)
    qed
  qed
qed

lemma ids_issued_init: "ids_issued init_world"
  by (simp add: ids_issued_def init_world_def)

section \<open>Registry claims\<close>

text \<open>
  C1. \<^verbatim>\<open>register\<close> on a subdomain that the registry holds (client object \<open>old\<close>) makes
  the calls of the eviction and, as its very last call, \<^verbatim>\<open>tunnels.set\<close> for the new
  entry: for every entry of the prior pending table one \<^verbatim>\<open>clearTimeout\<close> and one
  \<^verbatim>\<open>reject\<close> with the disconnected error, the clearing of that table,
  \<^verbatim>\<open>close(1000, ...)\<close> if the prior socket is open, \<^verbatim>\<open>tunnels.delete\<close>, and only then
  the insertion. At every earlier point of the call the map holds under the subdomain
  the prior entry or, once it is deleted, nothing. The world \<open>w1\<close> after the eviction has
  every prior timer cleared, every prior unsettled promise rejected with the disconnected
  error, the prior socket closing and the subdomain vacant; the final world differs from it
  only by the insertion and the UUID drawn. The new entry has \<open>requestCount\<close> 0, an
  empty pending table and as id the value of a new call of \<^verbatim>\<open>uuidv4()\<close>; if the
  generator never repeats a value, that id was never issued before, and it differs from the
  id of the evicted entry and of every registered entry (whose ids were all issued).
  \<^verbatim>\<open>get\<close> returns the new entry.
\<close>

theorem register_evicts_prior:
  assumes "get subdomain w = Some old"
  shows "let w1 = remove_tunnel subdomain w;
             r = register subdomain localPort ch now w;
             c = fst r; w' = snd r
         in trace w' = trace w @ evict_calls w subdomain old @ [TunnelsSet subdomain c] \<and>
            evict_calls w subdomain old =
              reject_calls (c_pendingRequests (objs w old)) @ [PendingClear old]
                @ close_calls w (c_ws (objs w old)) @ [TunnelsDelete subdomain] \<and>
            (\<forall>pre post. pre @ post = evict_calls w subdomain old @ [TunnelsSet subdomain c]
                \<and> post \<noteq> []
                \<longrightarrow> map_of (replay_tunnels pre (tunnels w)) subdomain =
                      (if TunnelsDelete subdomain \<in> set pre then None else Some old)) \<and>
            tunnels w' =
              replay_tunnels (evict_calls w subdomain old @ [TunnelsSet subdomain c]) (tunnels w) \<and>
            trace w1 = trace w @ evict_calls w subdomain old \<and>
            (\<forall>e \<in> set (c_pendingRequests (objs w old)).
               map_of (timers w1) (p_timeout (snd e)) = None \<and>
               promises w1 (p_promise (snd e)) =
                 (case promises w (p_promise (snd e)) of
                    None \<Rightarrow> Some (Inl TunnelDisconnected) | Some x \<Rightarrow> Some x)) \<and>
            (readyState w (c_ws (objs w old)) = OPEN \<longrightarrow>
               readyState w1 (c_ws (objs w old)) = CLOSING) \<and>
            get subdomain w1 = None \<and>
            tunnels w' = tunnels w1 @ [(subdomain, c)] \<and>
            objs w' = (objs w1)(c := \<lparr>c_id = uuid_source w (uuid_count w),
               c_subdomain = subdomain, c_localPort = localPort, c_ws = ch, c_connectedAt = now,
               c_requestCount = 0, c_pendingRequests = []\<rparr>) \<and>
            trace w' = trace w1 @ [TunnelsSet subdomain c] \<and>
            timers w' = timers w1 \<and> promises w' = promises w1 \<and>
            readyState w' = readyState w1 \<and>
            get subdomain w' = Some c \<and>
            objs w' c = \<lparr>c_id = uuid_source w (uuid_count w), c_subdomain = subdomain,
               c_localPort = localPort, c_ws = ch, c_connectedAt = now,
               c_requestCount = 0, c_pendingRequests = []\<rparr> \<and>
            uuid_count w' = Suc (uuid_count w) \<and>
            (inj (uuid_source w) \<longrightarrow> c_id (objs w' c) \<notin> issued w) \<and>
            (inj (uuid_source w) \<and> ids_issued w \<longrightarrow>
               c_id (objs w' c) \<noteq> c_id (objs w old) \<and>
               (\<forall>e \<in> set (tunnels w). c_id (objs w' c) \<noteq> c_id (objs w (snd e))))"
proof -
  let ?w1 = "remove_tunnel subdomain w"
  let ?c = "next_handle w"
  let ?ev = "evict_calls w subdomain old"
  have vacant: "get subdomain ?w1 = None" by (simp add: get_remove_tunnel)
  then have "subdomain \<notin> fst ` set (tunnels ?w1)"
    by (simp add: get_def map_of_eq_None_iff)
  then have app: "AList.update subdomain ?c (tunnels ?w1) = tunnels ?w1 @ [(subdomain, ?c)]"
    by (rule update_fresh_key)
  have waiters: "\<forall>e \<in> set (c_pendingRequests (objs w old)).
               map_of (timers ?w1) (p_timeout (snd e)) = None \<and>
               promises ?w1 (p_promise (snd e)) =
                 (case promises w (p_promise (snd e)) of
                    None \<Rightarrow> Some (Inl TunnelDisconnected) | Some x \<Rightarrow> Some x)"
    by (auto simp: remove_tunnel_present(5,6) [OF assms])
  have closing: "readyState w (c_ws (objs w old)) = OPEN \<longrightarrow>
               readyState ?w1 (c_ws (objs w old)) = CLOSING"
    by (simp add: remove_tunnel_present(3) [OF assms])
  have prefixes: "\<forall>pre post. pre @ post = ?ev @ [TunnelsSet subdomain ?c] \<and> post \<noteq> []
                \<longrightarrow> map_of (replay_tunnels pre (tunnels w)) subdomain =
                      (if TunnelsDelete subdomain \<in> set pre then None else Some old)"
    using replay_evict_prefix [OF assms] by blast
  have rep: "replay_tunnels (?ev @ [TunnelsSet subdomain ?c]) (tunnels w)
               = AList.update subdomain ?c (tunnels ?w1)"
    by (simp add: replay_append evict_calls_def remove_tunnel_present(1) [OF assms])
  have newid: "c_id (objs (snd (register subdomain localPort ch now w)) ?c)
                 = uuid_source w (uuid_count w)"
    by (simp add: register_get(3))
  have fresh: "inj (uuid_source w) \<longrightarrow> uuid_source w (uuid_count w) \<notin> issued w"
    using fresh_uuid by blast
  have distinct: "inj (uuid_source w) \<and> ids_issued w \<longrightarrow>
               uuid_source w (uuid_count w) \<noteq> c_id (objs w old) \<and>
               (\<forall>e \<in> set (tunnels w). uuid_source w (uuid_count w) \<noteq> c_id (objs w (snd e)))"
  proof (intro impI)
    assume h: "inj (uuid_source w) \<and> ids_issued w"
    then have f: "uuid_source w (uuid_count w) \<notin> issued w" using fresh by blast
    from assms have "(subdomain, old) \<in> set (tunnels w)"
      by (simp add: get_def map_of_SomeD)
    with h have "c_id (objs w old) \<in> issued w" by (force simp: ids_issued_def)
    moreover from h have "\<forall>e \<in> set (tunnels w). c_id (objs w (snd e)) \<in> issued w"
      by (simp add: ids_issued_def)
    ultimately show "uuid_source w (uuid_count w) \<noteq> c_id (objs w old) \<and>
               (\<forall>e \<in> set (tunnels w). uuid_source w (uuid_count w) \<noteq> c_id (objs w (snd e)))"
      using f by metis
  qed
  have split: "?ev = reject_calls (c_pendingRequests (objs w old)) @ [PendingClear old]
                @ close_calls w (c_ws (objs w old)) @ [TunnelsDelete subdomain]"
    by (simp add: evict_calls_def)
  have fields:
    "fst (register subdomain localPort ch now w) = ?c"
    "tunnels (snd (register subdomain localPort ch now w)) = tunnels ?w1 @ [(subdomain, ?c)]"
    "objs (snd (register subdomain localPort ch now w)) =
       (objs ?w1)(?c := \<lparr>c_id = uuid_source w (uuid_count w),
               c_subdomain = subdomain, c_localPort = localPort, c_ws = ch, c_connectedAt = now,
               c_requestCount = 0, c_pendingRequests = []\<rparr>)"
    "trace (snd (register subdomain localPort ch now w)) = trace ?w1 @ [TunnelsSet subdomain ?c]"
    "timers (snd (register subdomain localPort ch now w)) = timers ?w1"
    "promises (snd (register subdomain localPort ch now w)) = promises ?w1"
    "readyState (snd (register subdomain localPort ch now w)) = readyState ?w1"
    "uuid_count (snd (register subdomain localPort ch now w)) = Suc (uuid_count w)"
    by (simp_all add: register_result Let_def app)
  have tr1: "trace ?w1 = trace w @ ?ev" by (rule remove_tunnel_present(4) [OF assms])
  have g': "get subdomain (snd (register subdomain localPort ch now w)) = Some ?c"
    by (rule register_get(1))
  show ?thesis
    unfolding Let_def fields
    using vacant waiters closing prefixes fresh distinct split [symmetric] tr1 g' newid
    by (simp add: rep app fields del: replay_tunnels.simps)
qed

theorem register_evicts_prior_witness:
  "get ''a'' world_fwd = Some 0 \<and>
   c_pendingRequests (objs world_fwd 0) = [(''r1'', \<lparr>p_promise = 1, p_timeout = 2\<rparr>)] \<and>
   readyState world_fwd 7 = OPEN \<and>
   fst (register ''a'' 4000 8 5 world_fwd) = 3 \<and>
   trace (snd (register ''a'' 4000 8 5 world_fwd)) =
     trace world_fwd @ [ClearTimeout 2, Reject 1 TunnelDisconnected, PendingClear 0,
                        WsClose 7 1000 ''Tunnel removed'', TunnelsDelete ''a'',
                        TunnelsSet ''a'' 3] \<and>
   map_of (replay_tunnels [ClearTimeout 2, Reject 1 TunnelDisconnected, PendingClear 0,
                           WsClose 7 1000 ''Tunnel removed''] (tunnels world_fwd)) ''a'' = Some 0 \<and>
   promises (remove_tunnel ''a'' world_fwd) 1 = Some (Inl TunnelDisconnected) \<and>
   get ''a'' (remove_tunnel ''a'' world_fwd) = None \<and>
   get ''a'' (snd (register ''a'' 4000 8 5 world_fwd)) = Some 3 \<and>
   objs (snd (register ''a'' 4000 8 5 world_fwd)) 3 =
     \<lparr>c_id = ''uu'', c_subdomain = ''a'', c_localPort = 4000, c_ws = 8, c_connectedAt = 5,
      c_requestCount = 0, c_pendingRequests = []\<rparr> \<and>
   c_id (objs world_fwd 0) = ''u'' \<and>
   c_id (objs (snd (register ''a'' 4000 8 5 world_fwd)) 3) \<noteq> c_id (objs world_fwd 0)"
proof -
  have h: "get ''a'' world_fwd = Some 0" by (simp add: get_def world_fwd_eval)
  have n: "fst (register ''a'' 4000 8 5 world_fwd) = 3"
    by (simp add: register_get(2) world_fwd_eval)
  have i: "inj (uuid_source world_fwd)"
    by (simp add: world_fwd_eval inj_on_def)
  have s: "ids_issued world_fwd"
    unfolding world_fwd_def world_reg_def
    by (intro ids_issued_forward ids_issued_register ids_issued_init)
  have u: "uuid_source world_fwd (uuid_count world_fwd) = ''uu''"
    by (simp add: world_fwd_eval numeral_2_eq_2)
  have p: "[ClearTimeout 2, Reject 1 TunnelDisconnected, PendingClear 0,
            WsClose 7 1000 ''Tunnel removed'']
           @ [TunnelsDelete ''a'', TunnelsSet ''a'' 3]
           = evict_calls world_fwd ''a'' 0 @ [TunnelsSet ''a'' 3]"
    by (simp add: evict_calls_def reject_calls_def close_calls_def world_fwd_eval)
  note R = register_evicts_prior [OF h, of 4000 8 5, unfolded Let_def n]
  from R have P: "\<forall>pre post. pre @ post = evict_calls world_fwd ''a'' 0 @ [TunnelsSet ''a'' 3]
                \<and> post \<noteq> []
                \<longrightarrow> map_of (replay_tunnels pre (tunnels world_fwd)) ''a'' =
                      (if TunnelsDelete ''a'' \<in> set pre then None else Some 0)"
    by blast
  have r: "map_of (replay_tunnels [ClearTimeout 2, Reject 1 TunnelDisconnected,
        PendingClear 0, WsClose 7 1000 ''Tunnel removed''] (tunnels world_fwd)) ''a'' = Some 0"
    using P [rule_format, of "[ClearTimeout 2, Reject 1 TunnelDisconnected, PendingClear 0,
            WsClose 7 1000 ''Tunnel removed'']" "[TunnelsDelete ''a'', TunnelsSet ''a'' 3]"] p
    by (simp del: replay_tunnels.simps)
  from R i s have d: "c_id (objs (snd (register ''a'' 4000 8 5 world_fwd)) 3)
                        \<noteq> c_id (objs world_fwd 0)"
    by blast
  show ?thesis
    using h n R r d
    by (simp add: world_fwd_eval evict_calls_def reject_calls_def close_calls_def u
          del: replay_tunnels.simps)
qed

text \<open>
  C2. On a tunnel whose socket is open, the calls of \<^verbatim>\<open>forwardRequest\<close> are, in this
  order, \<^verbatim>\<open>setTimeout\<close>, \<^verbatim>\<open>pendingRequests.set(request.id, {promise, timer})\<close>, and
  \<^verbatim>\<open>ws.send\<close> of the \<open>{type: 'request', data: request}\<close> frame: the insertion is the
  call right before the send. The send is made in the world \<open>wb\<close> in which the entry is
  stored under \<open>request.id\<close> and the timer is set, and the entry is still there when
  \<^verbatim>\<open>forwardRequest\<close> returns.
\<close>

theorem pending_before_send:
  assumes "get subdomain w = Some c" and "readyState w (c_ws (objs w c)) = OPEN"
  shows "let p = next_handle w;
             w0 = w\<lparr>promises := (promises w)(p := None), next_handle := Suc p\<rparr>;
             t = fst (before_send c request p timeoutMs w0);
             wb = snd (before_send c request p timeoutMs w0);
             w' = snd (forwardRequest subdomain request timeoutMs outcome w)
         in trace w' = trace w @
              [SetTimeout t timeoutMs,
               PendingSet c (rq_id request) \<lparr>p_promise = p, p_timeout = t\<rparr>,
               send_event (c_ws (objs w c)) (RequestFrame request) outcome] \<and>
            map_of (c_pendingRequests (objs w' c)) (rq_id request)
              = Some \<lparr>p_promise = p, p_timeout = t\<rparr> \<and>
            map_of (c_pendingRequests (objs wb c)) (rq_id request)
              = Some \<lparr>p_promise = p, p_timeout = t\<rparr> \<and>
            map_of (timers wb) t = Some (c, rq_id request, p) \<and>
            trace wb = trace w @ [SetTimeout t timeoutMs,
                                  PendingSet c (rq_id request) \<lparr>p_promise = p, p_timeout = t\<rparr>] \<and>
            w' = (case outcome of
                    Sent \<Rightarrow> count_request c
                  | Throws e \<Rightarrow> settle p (Inl (SendThrew e)))
                   (ws_send (c_ws (objs wb c)) (RequestFrame request) outcome wb) \<and>
            c_ws (objs wb c) = c_ws (objs w c) \<and>
            trace w' = trace wb @ [send_event (c_ws (objs w c)) (RequestFrame request) outcome]"
  using assms
  by (simp add: Let_def forward_open executor_fields before_send_result update_conv')
     (simp add: executor_def before_send_result Let_def split: send_outcome.splits)

theorem pending_before_send_witness:
  "get ''a'' world_reg = Some 0 \<and> readyState world_reg (c_ws (objs world_reg 0)) = OPEN \<and>
   trace world_fwd = trace world_reg @
     [SetTimeout 2 30000, PendingSet 0 ''r1'' \<lparr>p_promise = 1, p_timeout = 2\<rparr>,
      WsSend 7 (RequestFrame req_1)] \<and>
   map_of (c_pendingRequests (objs world_fwd 0)) ''r1'' = Some \<lparr>p_promise = 1, p_timeout = 2\<rparr>"
proof -
  have h: "get ''a'' world_reg = Some 0"
    and o: "readyState world_reg (c_ws (objs world_reg 0)) = OPEN"
    by (simp_all add: get_def world_reg_eval)
  have n: "next_handle world_reg = 1" "c_ws (objs world_reg 0) = 7"
    by (simp_all add: world_reg_eval)
  show ?thesis
    using h o pending_before_send [OF h o, of req_1 30000 Sent]
    by (auto simp: Let_def n before_send_result world_fwd_def send_event_def numeral_2_eq_2)
qed

text \<open>
  C3. \<^verbatim>\<open>remove\<close> on an absent subdomain changes nothing. On a present one (client
  object \<open>c\<close>) the calls it makes are, for each entry of the pending table in order, one
  \<^verbatim>\<open>clearTimeout\<close> and one \<^verbatim>\<open>reject\<close> with the disconnected error, then the clearing
  of the table, then \<^verbatim>\<open>close(1000, ...)\<close> if the socket was open, then the deletion from
  the registry's map; afterwards no timer of an entry is set, every promise of an entry
  that was unsettled is rejected with the disconnected error, the pending table of \<open>c\<close>
  is empty, the socket that was open is closing, the subdomain is gone from the registry
  and every other subdomain is as before.
\<close>

theorem remove_completes:
  "(get subdomain w = None \<longrightarrow> remove_tunnel subdomain w = w) \<and>
   (\<forall>c. get subdomain w = Some c \<longrightarrow>
      trace (remove_tunnel subdomain w) =
        trace w @ reject_calls (c_pendingRequests (objs w c)) @ [PendingClear c]
          @ close_calls w (c_ws (objs w c)) @ [TunnelsDelete subdomain] \<and>
      (\<forall>e \<in> set (c_pendingRequests (objs w c)).
         map_of (timers (remove_tunnel subdomain w)) (p_timeout (snd e)) = None \<and>
         promises (remove_tunnel subdomain w) (p_promise (snd e)) =
           (case promises w (p_promise (snd e)) of
              None \<Rightarrow> Some (Inl TunnelDisconnected) | Some x \<Rightarrow> Some x)) \<and>
      c_pendingRequests (objs (remove_tunnel subdomain w) c) = [] \<and>
      (readyState w (c_ws (objs w c)) = OPEN \<longrightarrow>
         readyState (remove_tunnel subdomain w) (c_ws (objs w c)) = CLOSING) \<and>
      get subdomain (remove_tunnel subdomain w) = None \<and>
      (\<forall>s. s \<noteq> subdomain \<longrightarrow> get s (remove_tunnel subdomain w) = get s w))"
proof (intro conjI allI impI)
  show "get subdomain w = None \<Longrightarrow> remove_tunnel subdomain w = w"
    by (rule remove_tunnel_absent)
next
  fix c assume h: "get subdomain w = Some c"
  show "trace (remove_tunnel subdomain w) =
        trace w @ reject_calls (c_pendingRequests (objs w c)) @ [PendingClear c]
          @ close_calls w (c_ws (objs w c)) @ [TunnelsDelete subdomain]"
    by (simp add: remove_tunnel_present(4) [OF h] evict_calls_def)
  show "\<forall>e \<in> set (c_pendingRequests (objs w c)).
         map_of (timers (remove_tunnel subdomain w)) (p_timeout (snd e)) = None \<and>
         promises (remove_tunnel subdomain w) (p_promise (snd e)) =
           (case promises w (p_promise (snd e)) of
              None \<Rightarrow> Some (Inl TunnelDisconnected) | Some x \<Rightarrow> Some x)"
    by (auto simp: remove_tunnel_present(5,6) [OF h])
  show "c_pendingRequests (objs (remove_tunnel subdomain w) c) = []"
    by (simp add: remove_tunnel_present(2) [OF h])
  show "readyState (remove_tunnel subdomain w) (c_ws (objs w c)) = CLOSING"
    if "readyState w (c_ws (objs w c)) = OPEN"
    using that by (simp add: remove_tunnel_present(3) [OF h])
  show "get subdomain (remove_tunnel subdomain w) = None"
    by (simp add: get_remove_tunnel)
  show "get s (remove_tunnel subdomain w) = get s w" if "s \<noteq> subdomain" for s
    using that by (simp add: get_remove_tunnel)
qed

theorem remove_completes_witness:
  "get ''a'' world_fwd = Some 0 \<and> get ''b'' world_fwd = None \<and>
   remove_tunnel ''b'' world_fwd = world_fwd \<and>
   c_pendingRequests (objs world_fwd 0) = [(''r1'', \<lparr>p_promise = 1, p_timeout = 2\<rparr>)] \<and>
   readyState world_fwd 7 = OPEN \<and>
   trace (remove_tunnel ''a'' world_fwd) =
     trace world_fwd @ [ClearTimeout 2, Reject 1 TunnelDisconnected, PendingClear 0,
                        WsClose 7 1000 ''Tunnel removed'', TunnelsDelete ''a''] \<and>
   map_of (timers (remove_tunnel ''a'' world_fwd)) 2 = None \<and>
   promises (remove_tunnel ''a'' world_fwd) 1 = Some (Inl TunnelDisconnected) \<and>
   c_pendingRequests (objs (remove_tunnel ''a'' world_fwd) 0) = [] \<and>
   readyState (remove_tunnel ''a'' world_fwd) 7 = CLOSING \<and>
   get ''a'' (remove_tunnel ''a'' world_fwd) = None"
proof -
  have h: "get ''a'' world_fwd = Some 0" and n: "get ''b'' world_fwd = None"
    by (simp_all add: get_def world_fwd_eval)
  show ?thesis
    using h n remove_completes [of "''a''" world_fwd] remove_completes [of "''b''" world_fwd]
    by (simp add: world_fwd_eval reject_calls_def close_calls_def)
qed

text \<open>
  C4. \<^verbatim>\<open>handleResponse(ws, response)\<close>: if no tunnel holds the socket, or the (first)
  tunnel that holds it has no pending entry under \<open>response.id\<close>, the world is unchanged.
  If it has one, that entry's timer is cleared, the entry is deleted and its promise is
  resolved with the response, in this order. Whenever the call resolves a promise, the promise belongs to
  an entry stored under \<open>response.id\<close> in a tunnel whose socket is the given one.
\<close>

theorem response_scoped:
  "((\<forall>e \<in> set (tunnels w). c_ws (objs w (snd e)) \<noteq> ch) \<longrightarrow> handleResponse ch response w = w) \<and>
   (\<forall>e. owner ch w = Some e \<and>
        map_of (c_pendingRequests (objs w (snd e))) (rs_id response) = None
        \<longrightarrow> handleResponse ch response w = w) \<and>
   (\<forall>e pe. owner ch w = Some e \<and>
        map_of (c_pendingRequests (objs w (snd e))) (rs_id response) = Some pe
        \<longrightarrow> trace (handleResponse ch response w)
              = trace w @ [ClearTimeout (p_timeout pe), PendingDelete (snd e) (rs_id response),
                           Resolve (p_promise pe) response] \<and>
            map_of (c_pendingRequests (objs (handleResponse ch response w) (snd e)))
              (rs_id response) = None) \<and>
   (\<forall>p x evs. trace (handleResponse ch response w) = trace w @ evs \<and> Resolve p x \<in> set evs
        \<longrightarrow> (\<exists>e pe. e \<in> set (tunnels w) \<and> c_ws (objs w (snd e)) = ch \<and>
                   map_of (c_pendingRequests (objs w (snd e))) (rs_id response) = Some pe \<and>
                   p_promise pe = p \<and> x = response))"
proof (intro conjI allI impI)
  assume "\<forall>e \<in> set (tunnels w). c_ws (objs w (snd e)) \<noteq> ch"
  then have "owner ch w = None" by (auto simp: owner_def find_None_iff)
  then show "handleResponse ch response w = w" by (simp add: handleResponse_def)
next
  fix e
  assume "owner ch w = Some e \<and>
        map_of (c_pendingRequests (objs w (snd e))) (rs_id response) = None"
  then show "handleResponse ch response w = w" by (simp add: handleResponse_def)
next
  fix e pe
  assume h: "owner ch w = Some e \<and>
        map_of (c_pendingRequests (objs w (snd e))) (rs_id response) = Some pe"
  then show "trace (handleResponse ch response w)
              = trace w @ [ClearTimeout (p_timeout pe), PendingDelete (snd e) (rs_id response),
                           Resolve (p_promise pe) response]"
    by (simp add: handleResponse_def resolve_def pending_delete_def clearTimeout_def)
  from h show "map_of (c_pendingRequests (objs (handleResponse ch response w) (snd e)))
              (rs_id response) = None"
    by (simp add: handleResponse_def resolve_def pending_delete_def clearTimeout_def delete_conv')
next
  fix p x evs
  assume h: "trace (handleResponse ch response w) = trace w @ evs \<and> Resolve p x \<in> set evs"
  show "\<exists>e pe. e \<in> set (tunnels w) \<and> c_ws (objs w (snd e)) = ch \<and>
                   map_of (c_pendingRequests (objs w (snd e))) (rs_id response) = Some pe \<and>
                   p_promise pe = p \<and> x = response"
  proof (cases "owner ch w")
    case None
    with h show ?thesis by (auto simp: handleResponse_def)
  next
    case (Some e)
    then have own: "e \<in> set (tunnels w) \<and> c_ws (objs w (snd e)) = ch"
      unfolding owner_def by (auto simp: find_Some_iff)
    show ?thesis
    proof (cases "map_of (c_pendingRequests (objs w (snd e))) (rs_id response)")
      case None
      with h Some show ?thesis by (auto simp: handleResponse_def)
    next
      case (Some pe)
      with h \<open>owner ch w = Some e\<close> have "p_promise pe = p \<and> x = response"
        by (auto simp: handleResponse_def resolve_def pending_delete_def clearTimeout_def)
      with own Some show ?thesis by blast
    qed
  qed
qed

theorem response_scoped_witness:
  "owner 9 world_fwd = None \<and>
   handleResponse 9 resp_1 world_fwd = world_fwd \<and>
   owner 7 world_fwd = Some (''a'', 0) \<and>
   map_of (c_pendingRequests (objs world_fwd 0)) (rs_id resp_unknown) = None \<and>
   handleResponse 7 resp_unknown world_fwd = world_fwd \<and>
   map_of (c_pendingRequests (objs world_fwd 0)) (rs_id resp_1) = Some \<lparr>p_promise = 1, p_timeout = 2\<rparr> \<and>
   trace (handleResponse 7 resp_1 world_fwd) =
     trace world_fwd @ [ClearTimeout 2, PendingDelete 0 ''r1'', Resolve 1 resp_1] \<and>
   Resolve 1 resp_1 \<in> set [ClearTimeout 2, PendingDelete 0 ''r1'', Resolve 1 resp_1]"
proof -
  have a: "\<forall>e \<in> set (tunnels world_fwd). c_ws (objs world_fwd (snd e)) \<noteq> 9"
    and a': "owner 9 world_fwd = None"
    and b: "owner 7 world_fwd = Some (''a'', 0)"
    and c: "map_of (c_pendingRequests (objs world_fwd 0)) (rs_id resp_unknown) = None"
    and d: "map_of (c_pendingRequests (objs world_fwd 0)) (rs_id resp_1) = Some \<lparr>p_promise = 1, p_timeout = 2\<rparr>"
    by (simp_all add: world_fwd_eval owner_def resp_unknown_def resp_1_def)
  have i: "rs_id resp_1 = ''r1''" by (simp add: resp_1_def)
  show ?thesis
    using a a' b c d i response_scoped [of world_fwd 9 resp_1]
      response_scoped [of world_fwd 7 resp_unknown] response_scoped [of world_fwd 7 resp_1]
    by simp
qed

text \<open>
  C5. When the tunnel exists and its socket is open: if the frame is sent,
  \<open>requestCount\<close> of that client goes up by exactly one and no other client's changes;
  if the send throws, no \<open>requestCount\<close> changes. When the tunnel is absent or its socket
  is not open, no frame is sent and no \<open>requestCount\<close> changes.
\<close>

theorem requestCount_counts_sent:
  "(\<forall>c. get subdomain w = Some c \<and> readyState w (c_ws (objs w c)) = OPEN \<longrightarrow>
      trace (snd (forwardRequest subdomain request timeoutMs Sent w)) =
        trace w @ [SetTimeout (Suc (next_handle w)) timeoutMs,
                   PendingSet c (rq_id request)
                     \<lparr>p_promise = next_handle w, p_timeout = Suc (next_handle w)\<rparr>,
                   WsSend (c_ws (objs w c)) (RequestFrame request)] \<and>
      c_requestCount (objs (snd (forwardRequest subdomain request timeoutMs Sent w)) c)
        = c_requestCount (objs w c) + 1 \<and>
      (\<forall>d. d \<noteq> c \<longrightarrow>
         c_requestCount (objs (snd (forwardRequest subdomain request timeoutMs Sent w)) d)
           = c_requestCount (objs w d)) \<and>
      (\<forall>e d. c_requestCount
                (objs (snd (forwardRequest subdomain request timeoutMs (Throws e) w)) d)
              = c_requestCount (objs w d))) \<and>
   ((\<forall>c. get subdomain w = Some c \<longrightarrow> readyState w (c_ws (objs w c)) \<noteq> OPEN) \<longrightarrow>
      (\<forall>ch f. WsSend ch f \<in> set (trace (snd (forwardRequest subdomain request timeoutMs outcome w)))
               \<longrightarrow> WsSend ch f \<in> set (trace w)) \<and>
      (\<forall>d. c_requestCount (objs (snd (forwardRequest subdomain request timeoutMs outcome w)) d)
           = c_requestCount (objs w d)))"
proof (intro conjI allI impI)
  fix c assume h: "get subdomain w = Some c \<and> readyState w (c_ws (objs w c)) = OPEN"
  then have g: "get subdomain w = Some c" and o: "readyState w (c_ws (objs w c)) = OPEN"
    by simp_all
  show "trace (snd (forwardRequest subdomain request timeoutMs Sent w)) =
        trace w @ [SetTimeout (Suc (next_handle w)) timeoutMs,
                   PendingSet c (rq_id request)
                     \<lparr>p_promise = next_handle w, p_timeout = Suc (next_handle w)\<rparr>,
                   WsSend (c_ws (objs w c)) (RequestFrame request)]"
    by (simp add: forward_open [OF g o] executor_fields send_event_def)
  show "c_requestCount (objs (snd (forwardRequest subdomain request timeoutMs Sent w)) c)
        = c_requestCount (objs w c) + 1"
    by (simp add: forward_open [OF g o] executor_fields)
  show "c_requestCount (objs (snd (forwardRequest subdomain request timeoutMs Sent w)) d)
           = c_requestCount (objs w d)" if "d \<noteq> c" for d
    using that by (simp add: forward_open [OF g o] executor_fields)
  show "c_requestCount (objs (snd (forwardRequest subdomain request timeoutMs (Throws e) w)) d)
              = c_requestCount (objs w d)" for e d
    by (simp add: forward_open [OF g o] executor_fields)
next
  assume h: "\<forall>c. get subdomain w = Some c \<longrightarrow> readyState w (c_ws (objs w c)) \<noteq> OPEN"
  let ?w0 = "w\<lparr>promises := (promises w)(next_handle w := None), next_handle := Suc (next_handle w)\<rparr>"
  show "WsSend ch f \<in> set (trace w)"
    if "WsSend ch f \<in> set (trace (snd (forwardRequest subdomain request timeoutMs outcome w)))"
    for ch f
  proof (cases "get subdomain w")
    case None
    with that show ?thesis by (simp add: forward_no_tunnel)
  next
    case (Some c)
    then have g0: "get subdomain ?w0 = Some c" by (simp add: get_def)
    from Some h have "readyState w (c_ws (objs w c)) \<noteq> OPEN" by simp
    with that Some show ?thesis
      by (auto simp: forward_not_open remove_tunnel_present(4) [OF g0] evict_calls_def
            reject_calls_def close_calls_def)
  qed
  show "c_requestCount (objs (snd (forwardRequest subdomain request timeoutMs outcome w)) d)
           = c_requestCount (objs w d)" for d
  proof (cases "get subdomain w")
    case None
    then show ?thesis by (simp add: forward_no_tunnel)
  next
    case (Some c)
    then have g0: "get subdomain ?w0 = Some c" by (simp add: get_def)
    from Some h have "readyState w (c_ws (objs w c)) \<noteq> OPEN" by simp
    with Some show ?thesis
      by (simp add: forward_not_open remove_tunnel_present(2) [OF g0])
  qed
qed

theorem requestCount_counts_sent_witness:
  "get ''a'' world_reg = Some 0 \<and> readyState world_reg (c_ws (objs world_reg 0)) = OPEN \<and>
   c_requestCount (objs world_reg 0) = 0 \<and>
   c_requestCount (objs world_fwd 0) = 1 \<and>
   c_requestCount (objs world_threw 0) = 0 \<and>
   get ''zz'' world_reg = None \<and>
   c_requestCount (objs (snd (forwardRequest ''zz'' req_1 30000 Sent world_reg)) 0) = 0"
proof -
  have h: "get ''a'' world_reg = Some 0 \<and> readyState world_reg (c_ws (objs world_reg 0)) = OPEN"
    and z: "\<forall>c. get ''zz'' world_reg = Some c \<longrightarrow> readyState world_reg (c_ws (objs world_reg c)) \<noteq> OPEN"
    and n: "c_requestCount (objs world_reg 0) = 0"
    and z': "get ''zz'' world_reg = None"
    by (simp_all add: get_def world_reg_eval)
  show ?thesis
    using h z z' n requestCount_counts_sent [of "''a''" world_reg req_1 30000 Sent]
      requestCount_counts_sent [of "''zz''" world_reg req_1 30000 Sent]
    by (simp add: world_fwd_def world_threw_def)
qed

text \<open>
  C6 (amended). When the send of the request frame throws, the promise that
  \<^verbatim>\<open>forwardRequest\<close> returned is rejected with the error that \<^verbatim>\<open>ws.send\<close> threw, the
  entry stays in the pending table under \<open>request.id\<close> with its timer still set,
  \<open>requestCount\<close> is unchanged, and the entry is deleted when that timer fires.
\<close>

theorem send_failure_keeps_waiter:
  assumes "get subdomain w = Some c" and "readyState w (c_ws (objs w c)) = OPEN"
  shows "let r = forwardRequest subdomain request timeoutMs (Throws e) w;
             p = fst r; w' = snd r; t = Suc (next_handle w)
         in p = next_handle w \<and>
            promises w' p = Some (Inl (SendThrew e)) \<and>
            map_of (c_pendingRequests (objs w' c)) (rq_id request)
              = Some \<lparr>p_promise = p, p_timeout = t\<rparr> \<and>
            map_of (timers w') t = Some (c, rq_id request, p) \<and>
            trace w' = trace w @ [SetTimeout t timeoutMs,
                                  PendingSet c (rq_id request) \<lparr>p_promise = p, p_timeout = t\<rparr>,
                                  WsSendThrew (c_ws (objs w c)) (RequestFrame request) e] \<and>
            c_requestCount (objs w' c) = c_requestCount (objs w c) \<and>
            map_of (c_pendingRequests (objs (timer_fires t w') c)) (rq_id request) = None \<and>
            map_of (timers (timer_fires t w')) t = None"
  using assms
  by (simp add: Let_def forward_open executor_fields send_event_def update_conv' delete_conv'
        timer_fires_def pending_delete_def reject_def)

theorem send_failure_keeps_waiter_witness:
  "get ''a'' world_reg = Some 0 \<and> readyState world_reg (c_ws (objs world_reg 0)) = OPEN \<and>
   fst (forwardRequest ''a'' req_1 30000 (Throws ''boom'') world_reg) = 1 \<and>
   promises world_threw 1 = Some (Inl (SendThrew ''boom'')) \<and>
   map_of (c_pendingRequests (objs world_threw 0)) ''r1'' = Some \<lparr>p_promise = 1, p_timeout = 2\<rparr> \<and>
   map_of (timers world_threw) 2 = Some (0, ''r1'', 1) \<and>
   map_of (c_pendingRequests (objs (timer_fires 2 world_threw) 0)) ''r1'' = None"
proof -
  have h: "get ''a'' world_reg = Some 0"
    and o: "readyState world_reg (c_ws (objs world_reg 0)) = OPEN"
    and n: "next_handle world_reg = 1"
    by (simp_all add: get_def world_reg_eval)
  show ?thesis
    using h o send_failure_keeps_waiter [OF h o, of req_1 30000 "''boom''"]
    by (auto simp: Let_def n world_threw_def numeral_2_eq_2)
qed

text \<open>
  C6 as stated fails: after \<^verbatim>\<open>register('a', 3000, ws7)\<close> a forwarded request whose send
  throws leaves its entry in the pending table and its timer set, and the promise is not
  rejected with the not-open error.
\<close>

theorem send_failure_counterexample:
  "get ''a'' world_reg = Some 0 \<and> readyState world_reg (c_ws (objs world_reg 0)) = OPEN \<and>
   fst (forwardRequest ''a'' req_1 30000 (Throws ''boom'') world_reg) = 1 \<and>
   map_of (c_pendingRequests (objs (snd (forwardRequest ''a'' req_1 30000 (Throws ''boom'') world_reg)) 0))
      (rq_id req_1) = Some \<lparr>p_promise = 1, p_timeout = 2\<rparr> \<and>
   map_of (timers (snd (forwardRequest ''a'' req_1 30000 (Throws ''boom'') world_reg))) 2
      = Some (0, ''r1'', 1) \<and>
   ClearTimeout 2 \<notin> set (trace (snd (forwardRequest ''a'' req_1 30000 (Throws ''boom'') world_reg))) \<and>
   promises (snd (forwardRequest ''a'' req_1 30000 (Throws ''boom'') world_reg)) 1
      \<noteq> Some (Inl TunnelNotOpen)"
proof -
  have f: "fst (forwardRequest ''a'' req_1 30000 (Throws ''boom'') world_reg) = 1"
    by (simp add: forwardRequest_def Let_def world_reg_eval)
  show ?thesis
    unfolding world_threw_def [symmetric]
    by (simp add: f) (simp add: world_threw_eval world_reg_eval get_def)
qed

section \<open>The proxy response\<close>

lemma put_header_fields [simp]:
  "res_ended (put_header k v res) = res_ended res"
  "res_statusCode (put_header k v res) = res_statusCode res"
  by (simp_all add: put_header_def)

lemma setHeader_ok:
  "res_ended res = NotEnded \<Longrightarrow> valid_header_name k \<Longrightarrow> valid_header_value v \<Longrightarrow>
   setHeader k v res = Inr (put_header k v res)"
  by (simp add: setHeader_def)

lemma fold_put_fields [simp]:
  "res_ended (fold (\<lambda>kv. put_header (fst kv) (snd kv)) hs res) = res_ended res"
  "res_statusCode (fold (\<lambda>kv. put_header (fst kv) (snd kv)) hs res) = res_statusCode res"
  by (induction hs arbitrary: res) simp_all

lemma copy_headers_ok:
  assumes "res_ended res = NotEnded"
    and "list_all (\<lambda>kv. valid_header_name (fst kv) \<and> valid_header_value (snd kv))
           (filter (\<lambda>kv. toLowerCase (fst kv) \<notin> set HOP_BY_HOP_HEADERS) hs)"
  shows "copy_headers hs res =
           Inr (fold (\<lambda>kv. put_header (fst kv) (snd kv))
                  (filter (\<lambda>kv. toLowerCase (fst kv) \<notin> set HOP_BY_HOP_HEADERS) hs) res)"
  using assms
  by (induction hs arbitrary: res) (auto simp: setHeader_ok)

lemma getHeader_put:
  "getHeader n (put_header k v res) =
     (if toLowerCase n = toLowerCase k then Some v else getHeader n res)"
  by (simp add: getHeader_def put_header_def update_conv')

lemma getHeader_fold:
  "getHeader n (fold (\<lambda>kv. put_header (fst kv) (snd kv)) hs res) =
     (case last_written hs n of Some v \<Rightarrow> Some v | None \<Rightarrow> getHeader n res)"
proof (induction hs arbitrary: res)
  case Nil
  then show ?case by (simp add: last_written_def)
next
  case (Cons kv hs)
  show ?case
    by (simp add: Cons.IH getHeader_put last_written_def map_add_def
          split: option.splits)
qed

lemma lower_names:
  "toLowerCase ''X-Powered-By'' = ''x-powered-by''"
  "toLowerCase ''X-Tunnel-Subdomain'' = ''x-tunnel-subdomain''"
  by (simp_all add: toLowerCase_def lower_char_def lower_table_def)

lemma own_headers_valid:
  "valid_header_name ''X-Powered-By''" "valid_header_name ''X-Tunnel-Subdomain''"
  "valid_header_value ''LocalHosted''"
  by (simp_all add: valid_header_name_def valid_header_value_def token_char_def value_char_def)

lemma try_write_ok:
  assumes "res_ended res = NotEnded" and "accepted subdomain T"
  shows "try_write decode subdomain T res =
     Inr ((fold (\<lambda>kv. put_header (fst kv) (snd kv)) (written_headers subdomain T) res)
            \<lparr>res_statusCode := rs_statusCode T,
              res_ended := Ended (case rs_body T of
                                    None \<Rightarrow> []
                                  | Some b \<Rightarrow> if b \<noteq> [] then decode b else [])\<rparr>)"
proof -
  let ?r1 = "fold (\<lambda>kv. put_header (fst kv) (snd kv)) (kept_headers T) res"
  from assms have c: "copy_headers (rs_headers T) res = Inr ?r1"
    unfolding kept_headers_def accepted_def by (intro copy_headers_ok) simp_all
  have e1: "res_ended ?r1 = NotEnded" using assms(1) by simp
  have s1: "setHeader ''X-Powered-By'' ''LocalHosted'' ?r1
              = Inr (put_header ''X-Powered-By'' ''LocalHosted'' ?r1)"
    using e1 own_headers_valid by (intro setHeader_ok)
  have s2: "setHeader ''X-Tunnel-Subdomain'' subdomain
              (put_header ''X-Powered-By'' ''LocalHosted'' ?r1)
              = Inr (put_header ''X-Tunnel-Subdomain'' subdomain
                      (put_header ''X-Powered-By'' ''LocalHosted'' ?r1))"
    using e1 own_headers_valid assms(2) by (intro setHeader_ok) (simp_all add: accepted_def)
  from assms(2) have st: "\<not> (rs_statusCode T < 100 \<or> 999 < rs_statusCode T)"
    by (simp add: accepted_def)
  show ?thesis
    using st
    by (simp add: try_write_def c s1 s2 written_headers_def Let_def split: option.splits)
qed

text \<open>
  C7 (amended). For a tunnel response \<open>T\<close> that the HTTP layer accepts (the names of the
  headers outside the hop-by-hop list are HTTP tokens, their values and the subdomain have
  no forbidden character, the status code is in 100..999), written to a response that has
  not been sent: the proxy sets the status code of \<open>T\<close>; it ends the response with the
  decoded \<open>T.body\<close>, with no bytes when the body is absent; and the header table is what
  writing, in order, the headers of \<open>T\<close> outside the hop-by-hop list (names compared in
  lower case) and then \<open>X-Powered-By: LocalHosted\<close> and \<open>X-Tunnel-Subdomain: subdomain\<close>
  leaves: under every name the last value written to it, names compared without case (so
  the two headers of the relay replace headers of \<open>T\<close> with their names), and under a name
  that none of them wrote, every hop-by-hop name among them, what the response object
  held before. The decoder is a parameter; all that is used of it is that the empty string
  decodes to no bytes.
\<close>

theorem response_written:
  assumes "decode [] = []" and "res_ended res = NotEnded" and "accepted subdomain T"
  shows "let r = write_response decode message_of subdomain T res
         in res_statusCode r = rs_statusCode T \<and>
            res_ended r = Ended (case rs_body T of None \<Rightarrow> [] | Some b \<Rightarrow> decode b) \<and>
            (\<forall>n. getHeader n r =
                   (case last_written (written_headers subdomain T) n of
                      Some v \<Rightarrow> Some v | None \<Rightarrow> getHeader n res)) \<and>
            getHeader ''X-Powered-By'' r = Some ''LocalHosted'' \<and>
            getHeader ''X-Tunnel-Subdomain'' r = Some subdomain \<and>
            (\<forall>n. toLowerCase n \<in> set HOP_BY_HOP_HEADERS \<longrightarrow> getHeader n r = getHeader n res)"
proof -
  let ?r = "write_response decode message_of subdomain T res"
  let ?f = "fold (\<lambda>kv. put_header (fst kv) (snd kv)) (written_headers subdomain T) res"
  have w: "?r = ?f\<lparr>res_statusCode := rs_statusCode T,
                    res_ended := Ended (case rs_body T of
                                          None \<Rightarrow> []
                                        | Some b \<Rightarrow> if b \<noteq> [] then decode b else [])\<rparr>"
    by (simp add: write_response_def try_write_ok [OF assms(2,3)])
  have st: "res_statusCode ?r = rs_statusCode T" by (simp add: w)
  have bd: "res_ended ?r = Ended (case rs_body T of None \<Rightarrow> [] | Some b \<Rightarrow> decode b)"
    using assms(1) by (simp add: w split: option.splits)
  have hd: "getHeader n ?r =
              (case last_written (written_headers subdomain T) n of
                 Some v \<Rightarrow> Some v | None \<Rightarrow> getHeader n res)" for n
    using getHeader_fold [of n "written_headers subdomain T" res]
    by (simp add: getHeader_def w)
  have x1: "getHeader ''X-Powered-By'' ?r = Some ''LocalHosted''"
    by (simp add: hd last_written_def written_headers_def lower_names map_add_def)
  have x2: "getHeader ''X-Tunnel-Subdomain'' ?r = Some subdomain"
    by (simp add: hd last_written_def written_headers_def lower_names map_add_def)
  have hop: "getHeader n ?r = getHeader n res" if h: "toLowerCase n \<in> set HOP_BY_HOP_HEADERS" for n
  proof -
    from h have a: "toLowerCase n \<noteq> ''x-powered-by''" "toLowerCase n \<noteq> ''x-tunnel-subdomain''"
      by (auto simp: HOP_BY_HOP_HEADERS_def)
    have "toLowerCase n \<notin> fst ` set (map (\<lambda>kv. (toLowerCase (fst kv), snd kv)) (kept_headers T))"
      using h by (auto simp: kept_headers_def)
    then have "map_of (rev (map (\<lambda>kv. (toLowerCase (fst kv), snd kv)) (kept_headers T)))
                 (toLowerCase n) = None"
      by (simp add: map_of_eq_None_iff)
    with a show ?thesis
      by (simp add: hd last_written_def written_headers_def lower_names map_add_def)
  qed
  show ?thesis using st bd hd x1 x2 hop by (simp add: Let_def)
qed

theorem response_written_witness:
  "decode_0 [] = [] \<and> res_ended res_0 = NotEnded \<and> accepted ''a'' resp_1 \<and>
   res_statusCode (write_response decode_0 node_message ''a'' resp_1 res_0) = 200 \<and>
   res_ended (write_response decode_0 node_message ''a'' resp_1 res_0) = Ended [79, 75] \<and>
   getHeader ''Content-Type'' (write_response decode_0 node_message ''a'' resp_1 res_0)
     = Some ''text/plain'' \<and>
   toLowerCase ''connection'' \<in> set HOP_BY_HOP_HEADERS \<and>
   getHeader ''connection'' (write_response decode_0 node_message ''a'' resp_1 res_0) = None \<and>
   getHeader ''X-Powered-By'' (write_response decode_0 node_message ''a'' resp_1 res_0)
     = Some ''LocalHosted'' \<and>
   getHeader ''X-Tunnel-Subdomain'' (write_response decode_0 node_message ''a'' resp_1 res_0)
     = Some ''a'' \<and>
   getHeader ''x-frame-options'' (write_response decode_0 node_message ''a'' resp_1 res_0)
     = Some ''SAMEORIGIN''"
proof -
  let ?r = "write_response decode_0 node_message ''a'' resp_1 res_0"
  have d: "decode_0 [] = []" by (simp add: decode_0_def)
  have e: "res_ended res_0 = NotEnded" by (simp add: res_0_def)
  have k: "kept_headers resp_1 = [(''content-type'', ''text/plain'')]"
    by (simp add: kept_headers_def resp_1_def HOP_BY_HOP_HEADERS_def toLowerCase_def
          lower_char_def lower_table_def)
  have a: "accepted ''a'' resp_1"
    unfolding accepted_def k
    by (simp add: resp_1_def valid_header_name_def valid_header_value_def token_char_def
          value_char_def)
  have c: "toLowerCase ''connection'' \<in> set HOP_BY_HOP_HEADERS"
    by (simp add: HOP_BY_HOP_HEADERS_def toLowerCase_def lower_char_def lower_table_def)
  have l1: "last_written (written_headers ''a'' resp_1) ''Content-Type'' = Some ''text/plain''"
    and l2: "last_written (written_headers ''a'' resp_1) ''x-frame-options'' = None"
    and l3: "last_written (written_headers ''a'' resp_1) ''connection'' = None"
    unfolding written_headers_def k
    by (simp_all add: last_written_def toLowerCase_def lower_char_def lower_table_def)
  have g1: "getHeader ''x-frame-options'' res_0 = Some ''SAMEORIGIN''"
    and g2: "getHeader ''connection'' res_0 = None"
    by (simp_all add: getHeader_def res_0_def toLowerCase_def lower_char_def lower_table_def)
  have s: "rs_statusCode resp_1 = 200" and b: "rs_body resp_1 = Some ''T0s=''"
    by (simp_all add: resp_1_def)
  note R = response_written [of decode_0 res_0 "''a''" resp_1 node_message, unfolded Let_def,
      OF d e a]
  from R have "getHeader ''Content-Type'' ?r = Some ''text/plain''"
    by (simp add: l1)
  moreover from R have "getHeader ''x-frame-options'' ?r = Some ''SAMEORIGIN''"
    by (simp add: l2 g1)
  moreover from R c have "getHeader ''connection'' ?r = None"
    by (simp add: g2 l3)
  moreover from R have "res_statusCode ?r = 200"
    by (simp add: s)
  moreover from R have "res_ended ?r = Ended [79, 75]"
    by (simp add: b decode_0_def)
  moreover from R have "getHeader ''X-Powered-By'' ?r = Some ''LocalHosted''"
    by blast
  moreover from R have "getHeader ''X-Tunnel-Subdomain'' ?r = Some ''a''"
    by blast
  ultimately show ?thesis using d e a c by blast
qed

text \<open>
  C7 as stated fails. A tunnel response that the HTTP layer accepts and that names
  \<open>X-Powered-By\<close> itself and \<open>Content-Type\<close> twice loses its own \<open>X-Powered-By\<close> and its
  first \<open>Content-Type\<close>, though neither is on the hop-by-hop list. A tunnel response with
  status 200 and a header name that is no HTTP token is answered with status 502 and the
  proxy's JSON error.
\<close>

theorem response_written_counterexample:
  "accepted ''a'' resp_override \<and> res_ended res_0 = NotEnded \<and>
   (''X-Powered-By'', ''Evil'') \<in> set (kept_headers resp_override) \<and>
   getHeader ''X-Powered-By'' (write_response decode_0 node_message ''a'' resp_override res_0)
     = Some ''LocalHosted'' \<and>
   (''Content-Type'', ''text/html'') \<in> set (kept_headers resp_override) \<and>
   getHeader ''Content-Type'' (write_response decode_0 node_message ''a'' resp_override res_0)
     = Some ''text/plain'' \<and>
   rs_statusCode resp_bad_name = 200 \<and>
   res_statusCode (write_response decode_0 node_message ''a'' resp_bad_name res_0) = 502 \<and>
   res_ended (write_response decode_0 node_message ''a'' resp_bad_name res_0)
     = EndedJson ''Bad Gateway''
         (''Failed to proxy request: '' @ node_message (InvalidToken ''bad name'')) ''a'' \<and>
   getHeader ''X-Powered-By'' (write_response decode_0 node_message ''a'' resp_bad_name res_0)
     = None"
proof -
  have k: "kept_headers resp_override = rs_headers resp_override"
    by (simp add: kept_headers_def resp_override_def HOP_BY_HOP_HEADERS_def toLowerCase_def
          lower_char_def lower_table_def)
  have h: "rs_headers resp_override = [(''X-Powered-By'', ''Evil''), (''Content-Type'', ''text/html''),
                     (''content-type'', ''text/plain'')]"
    by (simp add: resp_override_def)
  have a: "accepted ''a'' resp_override"
    unfolding accepted_def k h
    by (simp add: resp_override_def valid_header_name_def valid_header_value_def token_char_def
          value_char_def)
  have e: "res_ended res_0 = NotEnded" by (simp add: res_0_def)
  have w: "write_response decode_0 node_message ''a'' resp_override res_0 =
             (fold (\<lambda>kv. put_header (fst kv) (snd kv)) (written_headers ''a'' resp_override) res_0)
               \<lparr>res_statusCode := 200, res_ended := Ended []\<rparr>"
    by (simp add: write_response_def try_write_ok [OF e a]) (simp add: resp_override_def)
  have g1: "getHeader ''X-Powered-By'' (write_response decode_0 node_message ''a'' resp_override res_0)
     = Some ''LocalHosted''"
    and g2: "getHeader ''Content-Type'' (write_response decode_0 node_message ''a'' resp_override res_0)
     = Some ''text/plain''"
    unfolding w written_headers_def k h
    by (simp_all add: getHeader_def put_header_def update_conv' toLowerCase_def lower_char_def
          lower_table_def)
  have bad: "\<not> valid_header_name ''bad name''"
    by (simp add: valid_header_name_def token_char_def)
  have t: "try_write decode_0 ''a'' resp_bad_name res_0 = Inl (InvalidToken ''bad name'', res_0)"
    by (simp add: try_write_def resp_bad_name_def setHeader_def bad e HOP_BY_HOP_HEADERS_def
          toLowerCase_def lower_char_def lower_table_def)
  have m: "\<not> includes_str (node_message (InvalidToken ''bad name'')) ''timed out''"
    "\<not> includes_str (node_message (InvalidToken ''bad name'')) ''disconnected''"
    "\<not> includes_str (node_message (InvalidToken ''bad name'')) ''not open''"
    by (simp_all add: node_message_def)
  have b: "write_response decode_0 node_message ''a'' resp_bad_name res_0 =
             res_0\<lparr>res_statusCode := 502,
                   res_ended := EndedJson ''Bad Gateway''
                     (''Failed to proxy request: '' @ node_message (InvalidToken ''bad name''))
                     ''a''\<rparr>"
    by (simp add: write_response_def t proxy_catch_def m json_reply_def e)
  have g3: "getHeader ''X-Powered-By'' (write_response decode_0 node_message ''a'' resp_bad_name res_0)
     = None"
    unfolding b
    by (simp add: getHeader_def res_0_def toLowerCase_def lower_char_def lower_table_def)
  show ?thesis
    using a e g1 g2 g3
    by (simp add: k h b) (simp add: resp_bad_name_def)
qed

section \<open>The empty subdomain\<close>

lemma lower_alnum_fixed: "lower_alnum c \<Longrightarrow> lower_char c = c"
proof -
  assume "lower_alnum c"
  then have "c \<notin> set ''ABCDEFGHIJKLMNOPQRSTUVWXYZ''"
    unfolding lower_alnum_def by auto
  then have "map_of lower_table c = None"
    by (simp add: lower_table_def)
  then show ?thesis by (simp add: lower_char_def)
qed

lemma handleMessage_register:
  "s \<noteq> [] \<Longrightarrow>
   handleMessage domain ch (Register (Some s)) requestedSubdomain localPort i j now outcome w =
     ws_send ch (TunnelReady (''https://'' @ sanitizeSubdomain s @ ''.'' @ domain)
                   (sanitizeSubdomain s) (uuid_source w (uuid_count w))) outcome
       (snd (register (sanitizeSubdomain s) localPort ch now w))"
  by (simp add: handleMessage_def or_else_def Let_def register_result split: option.splits)

text \<open>
  C10. A \<^verbatim>\<open>register\<close> message whose \<open>subdomain\<close> is a non-empty string that has no
  character of \<open>[a-z0-9]\<close> once lower-cased (so none before either; a string of blanks is
  one) is sanitized to the empty string, which is not a label of the spec's grammar, and
  the handler registers it as it is: afterwards \<^verbatim>\<open>get('')\<close> returns the new client of
  this socket, and the \<^verbatim>\<open>tunnel-ready\<close> frame carries the empty subdomain.
\<close>

theorem blank_subdomain_registered:
  assumes "s \<noteq> []" and "\<forall>c \<in> set (toLowerCase s). \<not> lower_alnum c"
  shows "let w' = handleMessage domain ch (Register (Some s)) requestedSubdomain localPort
                    i j now outcome w
         in (\<forall>c \<in> set s. \<not> lower_alnum c) \<and>
            sanitizeSubdomain s = [] \<and>
            \<not> spec_label [] \<and>
            get [] w' = Some (next_handle w) \<and>
            objs w' (next_handle w) =
              \<lparr>c_id = uuid_source w (uuid_count w), c_subdomain = [], c_localPort = localPort,
               c_ws = ch, c_connectedAt = now, c_requestCount = 0, c_pendingRequests = []\<rparr> \<and>
            trace w' = trace (remove_tunnel [] w)
              @ [TunnelsSet [] (next_handle w),
                 send_event ch (TunnelReady (''https://'' @ ''.'' @ domain) []
                                  (uuid_source w (uuid_count w))) outcome]"
proof -
  have e: "sanitizeSubdomain s = []" using assms by (rule sanitize_blank)
  have cls: "\<forall>c \<in> set s. \<not> lower_alnum c"
  proof
    fix c assume "c \<in> set s"
    then have "lower_char c \<in> set (toLowerCase s)" by (simp add: toLowerCase_def)
    with assms(2) have "\<not> lower_alnum (lower_char c)" by blast
    then show "\<not> lower_alnum c" using lower_alnum_fixed by force
  qed
  have g: "get [] (snd (register [] localPort ch now w)) = Some (next_handle w)"
    by (rule register_get(1))
  have t: "trace (snd (register [] localPort ch now w))
             = trace (remove_tunnel [] w) @ [TunnelsSet [] (next_handle w)]"
    by (simp add: register_result Let_def)
  show ?thesis
    using assms(1) cls g t
    by (simp add: Let_def handleMessage_register e spec_label_def get_def register_get(3))
qed

theorem blank_subdomain_registered_witness:
  "'' '' \<noteq> [] \<and> toLowerCase '' '' = '' '' \<and> \<not> lower_alnum (CHR '' '') \<and>
   sanitizeSubdomain '' '' = [] \<and>
   get [] (handleMessage ''example.com'' 7 (Register (Some '' '')) None 3000 2 0
             0 Sent init_world) = Some 0 \<and>
   trace (handleMessage ''example.com'' 7 (Register (Some '' '')) None 3000 2 0
             0 Sent init_world)
     = [TunnelsSet [] 0, WsSend 7 (TunnelReady ''https://.example.com'' [] ''u'')]"
proof -
  have a: "'' '' \<noteq> []" by simp
  have b: "\<forall>c \<in> set (toLowerCase '' ''). \<not> lower_alnum c"
    by (simp add: toLowerCase_def lower_char_def lower_table_def lower_alnum_def)
  have b': "toLowerCase '' '' = '' ''" "\<not> lower_alnum (CHR '' '')"
    by (simp_all add: toLowerCase_def lower_char_def lower_table_def lower_alnum_def)
  have n: "next_handle init_world = 0" "remove_tunnel [] init_world = init_world"
    "trace init_world = []" "uuid_source init_world (uuid_count init_world) = ''u''"
    by (simp_all add: init_world_def remove_tunnel_def)
  show ?thesis
    using a b' blank_subdomain_registered [OF a b, of "''example.com''" 7 None 3000
        2 0 0 Sent init_world]
    by (simp add: Let_def n send_event_def)
qed

section \<open>The id invariant on the remaining operations\<close>

lemma ids_issued_handleResponse:
  assumes "ids_issued w"
  shows "ids_issued (handleResponse ch response w)"
proof -
  have "tunnels (handleResponse ch response w) = tunnels w"
    and "uuid_source (handleResponse ch response w) = uuid_source w"
    and "uuid_count (handleResponse ch response w) = uuid_count w"
    and "c_id (objs (handleResponse ch response w) d) = c_id (objs w d)" for d
    by (simp_all add: handleResponse_def resolve_def pending_delete_def clearTimeout_def
          split: option.splits)
  with assms show ?thesis by (simp add: ids_issued_def issued_def)
qed

lemma ids_issued_timer_fires:
  assumes "ids_issued w"
  shows "ids_issued (timer_fires t w)"
proof -
  have "tunnels (timer_fires t w) = tunnels w"
    and "uuid_source (timer_fires t w) = uuid_source w"
    and "uuid_count (timer_fires t w) = uuid_count w"
    and "c_id (objs (timer_fires t w) d) = c_id (objs w d)" for d
    by (simp_all add: timer_fires_def reject_def pending_delete_def split: option.splits)
  with assms show ?thesis by (simp add: ids_issued_def issued_def)
qed

lemma ids_issued_removeByWs: "ids_issued w \<Longrightarrow> ids_issued (removeByWs ch w)"
  by (simp add: removeByWs_def ids_issued_remove split: option.splits)

lemma ids_issued_generate:
  assumes "ids_issued w"
  shows "ids_issued (snd (generateSubdomain i j w))"
proof -
  have "issued w \<subseteq> issued (snd (generateSubdomain i j w))"
    by (auto simp: generateSubdomain_def uuidv4_def issued_def lessThan_Suc)
  moreover have "tunnels (snd (generateSubdomain i j w)) = tunnels w"
    and "objs (snd (generateSubdomain i j w)) = objs w"
    by (simp_all add: generateSubdomain_def uuidv4_def)
  ultimately show ?thesis using assms by (auto simp: ids_issued_def)
qed

lemma ids_issued_ws_send: "ids_issued w \<Longrightarrow> ids_issued (ws_send ch f outcome w)"
  by (simp add: ids_issued_def issued_def ws_send_def split: send_outcome.splits)

lemma ids_issued_handleMessage:
  assumes "ids_issued w"
  shows "ids_issued (handleMessage domain ch message requestedSubdomain localPort i j now
                       outcome w)"
proof (cases message)
  case (Register msub)
  show ?thesis
  proof (cases "or_else (or_else msub requestedSubdomain) None")
    case None
    have "ids_issued (snd (register (sanitizeSubdomain (fst (generateSubdomain i j w)))
                             localPort ch now (snd (generateSubdomain i j w))))"
      using assms by (intro ids_issued_register ids_issued_generate)
    then show ?thesis
      using Register None
      by (simp add: handleMessage_def Let_def split_beta ids_issued_ws_send)
  next
    case (Some s)
    have "ids_issued (snd (register (sanitizeSubdomain s) localPort ch now w))"
      using assms by (rule ids_issued_register)
    then show ?thesis
      using Register Some
      by (simp add: handleMessage_def Let_def split_beta ids_issued_ws_send)
  qed
next
  case (Response data)
  with assms show ?thesis
    by (simp add: handleMessage_def ids_issued_handleResponse split: option.splits)
next
  case Pong
  with assms show ?thesis by (simp add: handleMessage_def)
next
  case (Other t)
  with assms show ?thesis by (simp add: handleMessage_def)
qed

end
